theory Spec2Isabelle
  imports Main "HOL-Library.Word"
begin

section \<open>Numbers\<close>

text \<open>
  The settings of the slicer are TypeScript \<open>number\<close>s that the UI reads with
  \<open>parseInt(..) || default\<close>, so they hold integers; image and canvas dimensions are
  integers as well. They are modelled as \<open>int\<close>. The only operation of the program that
  leaves the integers is \<open>Math.floor(a / b)\<close> with \<open>b = 0\<close>, where IEEE division yields
  \<open>Infinity\<close>, \<open>-Infinity\<close> or \<open>NaN\<close>; results of such computations are \<open>jsnum\<close>s.
  (The quotient of two integers below \<open>2^53\<close> in magnitude is floored exactly; the sign of
  zero is not modelled.)
\<close>

datatype jsnum = Fin int | PosInf | NegInf | NaN

text \<open>\<open>Math.floor(a / b)\<close> for integer-valued \<open>a\<close> and \<open>b\<close>.\<close>

definition floor_div :: "int \<Rightarrow> int \<Rightarrow> jsnum" where
  "floor_div a b =
     (if b \<noteq> 0 then Fin (a div b)
      else if 0 < a then PosInf
      else if a < 0 then NegInf
      else NaN)"

text \<open>\<open>Math.max(a, b)\<close>: \<open>NaN\<close> if either argument is \<open>NaN\<close>.\<close>

fun math_max :: "jsnum \<Rightarrow> jsnum \<Rightarrow> jsnum" where
  "math_max NaN _ = NaN"
| "math_max _ NaN = NaN"
| "math_max PosInf _ = PosInf"
| "math_max _ PosInf = PosInf"
| "math_max NegInf b = b"
| "math_max a NegInf = a"
| "math_max (Fin a) (Fin b) = Fin (max a b)"

text \<open>The product \<open>a * b\<close>: \<open>Infinity * 0\<close> is \<open>NaN\<close>.\<close>

fun jmul :: "jsnum \<Rightarrow> jsnum \<Rightarrow> jsnum" where
  "jmul (Fin a) (Fin b) = Fin (a * b)"
| "jmul NaN _ = NaN"
| "jmul _ NaN = NaN"
| "jmul (Fin a) PosInf = (if 0 < a then PosInf else if a < 0 then NegInf else NaN)"
| "jmul (Fin a) NegInf = (if 0 < a then NegInf else if a < 0 then PosInf else NaN)"
| "jmul PosInf (Fin b) = (if 0 < b then PosInf else if b < 0 then NegInf else NaN)"
| "jmul NegInf (Fin b) = (if 0 < b then NegInf else if b < 0 then PosInf else NaN)"
| "jmul PosInf PosInf = PosInf"
| "jmul PosInf NegInf = NegInf"
| "jmul NegInf PosInf = NegInf"
| "jmul NegInf NegInf = PosInf"

text \<open>The sum \<open>a + b\<close>: \<open>Infinity + (-Infinity)\<close> is \<open>NaN\<close>.\<close>

fun jadd :: "jsnum \<Rightarrow> jsnum \<Rightarrow> jsnum" where
  "jadd (Fin a) (Fin b) = Fin (a + b)"
| "jadd NaN _ = NaN"
| "jadd _ NaN = NaN"
| "jadd PosInf NegInf = NaN"
| "jadd NegInf PosInf = NaN"
| "jadd PosInf _ = PosInf"
| "jadd _ PosInf = PosInf"
| "jadd NegInf _ = NegInf"
| "jadd _ NegInf = NegInf"

text \<open>The comparison \<open>a < b\<close>: false as soon as one side is \<open>NaN\<close>.\<close>

fun jless :: "jsnum \<Rightarrow> jsnum \<Rightarrow> bool" where
  "jless (Fin a) (Fin b) = (a < b)"
| "jless NaN _ = False"
| "jless _ NaN = False"
| "jless _ NegInf = False"
| "jless PosInf _ = False"
| "jless _ PosInf = True"
| "jless NegInf _ = True"

text \<open>\<open>String(n)\<close> for an integer (below \<open>10^21\<close> in magnitude): its decimal digits.\<close>

definition digit_char :: "nat \<Rightarrow> char" where
  "digit_char d = char_of (48 + d)"

fun digits :: "nat \<Rightarrow> string" where
  "digits n = (if n < 10 then [digit_char n] else digits (n div 10) @ [digit_char (n mod 10)])"

definition number_to_string :: "int \<Rightarrow> string" where
  "number_to_string i = (if i < 0 then CHR ''-'' # digits (nat (- i)) else digits (nat i))"


section \<open>types.d.ts\<close>

record TileSettings =
  tileWidth :: int
  tileHeight :: int
  margin :: int
  spacing :: int
  offsetX :: int
  offsetY :: int
  trimTransparent :: bool
  preservePadding :: int

record ImageMetadata =
  width :: int
  height :: int
  hasAlpha :: bool

record GridInfo =
  rows :: jsnum
  cols :: jsnum
  totalTiles :: jsnum


section \<open>grid.ts: GridCalculator\<close>

definition calculateGrid :: "TileSettings \<Rightarrow> ImageMetadata \<Rightarrow> GridInfo" where
  "calculateGrid settings imageMetadata =
     (let availableWidth = width imageMetadata - margin settings * 2 - offsetX settings;
          availableHeight = height imageMetadata - margin settings * 2 - offsetY settings;
          ncols = floor_div (availableWidth + spacing settings)
                    (tileWidth settings + spacing settings);
          nrows = floor_div (availableHeight + spacing settings)
                    (tileHeight settings + spacing settings)
      in \<lparr> rows = math_max (Fin 0) nrows,
           cols = math_max (Fin 0) ncols,
           totalTiles = math_max (Fin 0) (jmul nrows ncols) \<rparr>)"

definition width_message :: "int \<Rightarrow> int \<Rightarrow> string" where
  "width_message w minRequiredWidth =
     ''Image width ('' @ number_to_string w @ ''px) is too small for current settings (requires at least ''
       @ number_to_string minRequiredWidth @ ''px)''"

definition height_message :: "int \<Rightarrow> int \<Rightarrow> string" where
  "height_message h minRequiredHeight =
     ''Image height ('' @ number_to_string h @ ''px) is too small for current settings (requires at least ''
       @ number_to_string minRequiredHeight @ ''px)''"

text \<open>\<open>errors.push(msg)\<close> under a condition: the list grows at its end.\<close>

definition push_if :: "bool \<Rightarrow> string \<Rightarrow> string list \<Rightarrow> string list" where
  "push_if c msg errors = (if c then errors @ [msg] else errors)"

definition validateSettings :: "TileSettings \<Rightarrow> ImageMetadata \<Rightarrow> string list" where
  "validateSettings settings imageMetadata =
     (let errors = [];
          errors = push_if (tileWidth settings \<le> 0) ''Tile width must be greater than 0'' errors;
          errors = push_if (tileHeight settings \<le> 0) ''Tile height must be greater than 0'' errors;
          errors = push_if (margin settings < 0) ''Margin cannot be negative'' errors;
          errors = push_if (spacing settings < 0) ''Spacing cannot be negative'' errors;
          errors = push_if (offsetX settings < 0) ''Offset X cannot be negative'' errors;
          errors = push_if (offsetY settings < 0) ''Offset Y cannot be negative'' errors;
          minRequiredWidth = margin settings * 2 + offsetX settings + tileWidth settings;
          minRequiredHeight = margin settings * 2 + offsetY settings + tileHeight settings;
          errors = push_if (width imageMetadata < minRequiredWidth)
                     (width_message (width imageMetadata) minRequiredWidth) errors;
          errors = push_if (height imageMetadata < minRequiredHeight)
                     (height_message (height imageMetadata) minRequiredHeight) errors
      in errors)"

text \<open>The geometry the specification calls feasible.\<close>

definition feasible :: "TileSettings \<Rightarrow> ImageMetadata \<Rightarrow> bool" where
  "feasible s m \<longleftrightarrow>
     0 < tileWidth s \<and> 0 < tileHeight s \<and> 0 \<le> margin s \<and> 0 \<le> spacing s \<and>
     0 \<le> offsetX s \<and> 0 \<le> offsetY s \<and>
     2 * margin s + offsetX s + tileWidth s \<le> width m \<and>
     2 * margin s + offsetY s + tileHeight s \<le> height m"


section \<open>Rasters: images, canvases and their pixel data\<close>

text \<open>
  An \<open>ImageData\<close> is a width, a height and the RGBA bytes of the pixels in row-major order,
  four bytes per pixel (a \<open>Uint8ClampedArray\<close>). A decoded \<open>HTMLImageElement\<close> and an
  \<open>HTMLCanvasElement\<close> are identified with the \<open>ImageData\<close> of their whole bitmap, which is
  what \<open>getImageData(0, 0, width, height)\<close> returns for them.
\<close>

type_synonym byte = "8 word"

record ImageData =
  iwidth :: nat
  iheight :: nat
  data :: "byte list"

text \<open>The platform's invariant for a bitmap: four bytes per pixel, and dimensions that fit
  the signed 32-bit range the \<open>width\<close> and \<open>height\<close> attributes of a canvas are limited to.\<close>

definition max_dimension :: nat where
  "max_dimension = 2147483647"

definition wf_image :: "ImageData \<Rightarrow> bool" where
  "wf_image c \<longleftrightarrow>
     length (data c) = 4 * (iwidth c * iheight c) \<and>
     iwidth c \<le> max_dimension \<and> iheight c \<le> max_dimension"

text \<open>The comparison \<open>data[idx] > k\<close>: a read past the end of the array is \<open>undefined\<close>,
  and the comparison is then false.\<close>

definition exceeds :: "byte list \<Rightarrow> nat \<Rightarrow> byte \<Rightarrow> bool" where
  "exceeds d idx k \<longleftrightarrow> idx < length d \<and> k < d ! idx"

text \<open>The alpha byte of the pixel in column \<open>x\<close> of row \<open>y\<close>, and the pixels that are not
  fully transparent.\<close>

definition alpha :: "ImageData \<Rightarrow> nat \<Rightarrow> nat \<Rightarrow> byte" where
  "alpha c x y = data c ! ((y * iwidth c + x) * 4 + 3)"

definition opaque :: "ImageData \<Rightarrow> (nat \<times> nat) set" where
  "opaque c = {(x, y). x < iwidth c \<and> y < iheight c \<and> 0 < alpha c x y}"

datatype error = IndexSizeError

text \<open>\<open>ctx.getImageData(0, 0, canvas.width, canvas.height)\<close>: the platform throws an
  \<open>IndexSizeError\<close> when the width or the height asked for is zero.\<close>

definition getImageData :: "ImageData \<Rightarrow> error + byte list" where
  "getImageData c = (if iwidth c = 0 \<or> iheight c = 0 then Inl IndexSizeError else Inr (data c))"

text \<open>\<open>canvas.width = v\<close> for an integer \<open>v\<close>: the value is converted to an unsigned 32-bit
  integer, and one outside \<open>0 .. 2^31 - 1\<close> is replaced by the attribute's default (300 for
  the width, 150 for the height).\<close>

definition set_dimension :: "nat \<Rightarrow> int \<Rightarrow> nat" where
  "set_dimension dflt v =
     (let u = v mod 4294967296 in if u \<le> 2147483647 then nat u else dflt)"

text \<open>The four bytes of the source pixel at \<open>(X, Y)\<close>; outside the source nothing is drawn and
  the destination keeps the transparent black of a new canvas.\<close>

definition source_pixel :: "ImageData \<Rightarrow> int \<Rightarrow> int \<Rightarrow> byte list" where
  "source_pixel src X Y =
     (if 0 \<le> X \<and> X < int (iwidth src) \<and> 0 \<le> Y \<and> Y < int (iheight src)
      then (let k = (nat Y * iwidth src + nat X) * 4
            in [data src ! k, data src ! (k + 1), data src ! (k + 2), data src ! (k + 3)])
      else [0, 0, 0, 0])"

text \<open>
  The sequence \<open>c = document.createElement('canvas'); c.width = w; c.height = h;
  c.getContext('2d').drawImage(src, sx, sy, w, h, 0, 0, w, h)\<close>, which the slicer uses
  twice: a new canvas is transparent black; the source rectangle is drawn unscaled at the
  origin, clipped to the source and to the canvas. (The pixels are copied as they are: the
  rounding of a premultiplied-alpha backing store is not modelled.)
\<close>

definition canvas_from :: "int \<Rightarrow> int \<Rightarrow> ImageData \<Rightarrow> int \<Rightarrow> int \<Rightarrow> ImageData" where
  "canvas_from w h src sx sy =
     (let cw = set_dimension 300 w; ch = set_dimension 150 h
      in \<lparr> iwidth = cw, iheight = ch,
           data = concat (map (\<lambda>i. if int (i mod cw) < w \<and> int (i div cw) < h
                                    then source_pixel src (sx + int (i mod cw)) (sy + int (i div cw))
                                    else [0, 0, 0, 0])
                            [0..<cw * ch]) \<rparr>)"


section \<open>slicer.ts: SpriteSlicer\<close>

record TileData =
  canvas :: ImageData
  row :: int
  col :: int
  index :: jsnum
  isEmpty :: bool

text \<open>One step of the bounding-box scan: the body of the inner loop at \<open>(x, y)\<close>.\<close>

definition bbox_step :: "byte list \<Rightarrow> nat \<Rightarrow> nat \<Rightarrow> nat \<Rightarrow> int \<times> int \<times> int \<times> int \<Rightarrow> int \<times> int \<times> int \<times> int" where
  "bbox_step d w y x b =
     (case b of (minX, minY, maxX, maxY) \<Rightarrow>
        if exceeds d ((y * w + x) * 4 + 3) 0
        then (min minX (int x), min minY (int y), max maxX (int x), max maxY (int y))
        else b)"

text \<open>The two nested loops, rows outside and columns inside, from
  \<open>(canvas.width, canvas.height, -1, -1)\<close>.\<close>

definition bbox_scan :: "byte list \<Rightarrow> nat \<Rightarrow> nat \<Rightarrow> int \<times> int \<times> int \<times> int" where
  "bbox_scan d w h =
     fold (\<lambda>y. fold (bbox_step d w y) [0..<w]) [0..<h] (int w, int h, - 1, - 1)"

definition emptyCanvas :: ImageData where
  "emptyCanvas = \<lparr> iwidth = 1, iheight = 1, data = [0, 0, 0, 0] \<rparr>"

definition trimTransparentEdges :: "ImageData \<Rightarrow> int \<Rightarrow> error + (ImageData \<times> bool)" where
  "trimTransparentEdges cnv padding =
     (case getImageData cnv of
        Inl e \<Rightarrow> Inl e
      | Inr d \<Rightarrow>
          (case bbox_scan d (iwidth cnv) (iheight cnv) of (minX, minY, maxX, maxY) \<Rightarrow>
             if maxX = - 1 then Inr (emptyCanvas, True)
             else
               (let minX = max 0 (minX - padding);
                    minY = max 0 (minY - padding);
                    maxX = min (int (iwidth cnv) - 1) (maxX + padding);
                    maxY = min (int (iheight cnv) - 1) (maxY + padding);
                    trimmedWidth = maxX - minX + 1;
                    trimmedHeight = maxY - minY + 1
                in Inr (canvas_from trimmedWidth trimmedHeight cnv minX minY, False))))"

text \<open>The loop \<open>for (let i = 3; i < data.length; i += 4)\<close> of \<open>isCanvasEmpty\<close>.\<close>

function alpha_scan :: "byte list \<Rightarrow> nat \<Rightarrow> bool" where
  "alpha_scan d i =
     (if i < length d then (if 0 < d ! i then False else alpha_scan d (i + 4)) else True)"
  by pat_completeness auto
termination
  by (relation "measure (\<lambda>(d, i). length d - i)") auto

definition isCanvasEmpty :: "ImageData \<Rightarrow> error + bool" where
  "isCanvasEmpty cnv =
     (case getImageData cnv of Inl e \<Rightarrow> Inl e | Inr d \<Rightarrow> Inr (alpha_scan d 3))"

definition sourceX :: "TileSettings \<Rightarrow> int \<Rightarrow> int" where
  "sourceX settings cl = margin settings + offsetX settings + cl * (tileWidth settings + spacing settings)"

definition sourceY :: "TileSettings \<Rightarrow> int \<Rightarrow> int" where
  "sourceY settings rw = margin settings + offsetY settings + rw * (tileHeight settings + spacing settings)"

text \<open>The tile canvas of \<open>extractTile\<close>, before any trimming.\<close>

definition tileCanvas :: "ImageData \<Rightarrow> TileSettings \<Rightarrow> int \<Rightarrow> int \<Rightarrow> ImageData" where
  "tileCanvas img settings rw cl =
     canvas_from (tileWidth settings) (tileHeight settings) img
       (sourceX settings cl) (sourceY settings rw)"

text \<open>The \<open>index\<close> expression of \<open>extractTile\<close>.\<close>

definition tileIndex :: "ImageData \<Rightarrow> TileSettings \<Rightarrow> int \<Rightarrow> int \<Rightarrow> jsnum" where
  "tileIndex img settings rw cl =
     jadd (jmul (Fin rw)
             (if tileWidth settings > 0
              then floor_div (int (iwidth img) - margin settings * 2 - offsetX settings + spacing settings)
                     (tileWidth settings + spacing settings)
              else Fin 1))
          (Fin cl)"

definition extractTile :: "ImageData \<Rightarrow> TileSettings \<Rightarrow> int \<Rightarrow> int \<Rightarrow> error + TileData" where
  "extractTile img settings rw cl =
     (let tc = tileCanvas img settings rw cl
      in if trimTransparent settings
         then (case trimTransparentEdges tc (preservePadding settings) of
                 Inl e \<Rightarrow> Inl e
               | Inr (finalCanvas, emp) \<Rightarrow>
                   Inr \<lparr> canvas = finalCanvas, row = rw, col = cl,
                         index = tileIndex img settings rw cl, isEmpty = emp \<rparr>)
         else (case isCanvasEmpty tc of
                 Inl e \<Rightarrow> Inl e
               | Inr emp \<Rightarrow>
                   Inr \<lparr> canvas = tc, row = rw, col = cl,
                         index = tileIndex img settings rw cl, isEmpty = emp \<rparr>))"

text \<open>
  The two nested loops of \<open>sliceSprite\<close> as one recursion on \<open>(row, col, tiles)\<close>. The bounds
  come from a \<open>GridInfo\<close> and may be infinite, so the loop need not end: \<open>None\<close> is a run that
  never returns, \<open>Some (Inl e)\<close> one that an exception of \<open>extractTile\<close> ends. The progress
  callback and the periodic \<open>await\<close> do not change the tiles and are left out.
\<close>

partial_function (option) sliceLoop ::
  "ImageData \<Rightarrow> TileSettings \<Rightarrow> jsnum \<Rightarrow> jsnum \<Rightarrow> int \<Rightarrow> int \<Rightarrow> TileData list
     \<Rightarrow> (error + TileData list) option" where
  "sliceLoop img settings nrows ncols rw cl tiles =
     (if jless (Fin rw) nrows then
        (if jless (Fin cl) ncols then
           (case extractTile img settings rw cl of
              Inl e \<Rightarrow> Some (Inl e)
            | Inr tile \<Rightarrow> sliceLoop img settings nrows ncols rw (cl + 1) (tiles @ [tile]))
         else sliceLoop img settings nrows ncols (rw + 1) 0 tiles)
      else Some (Inr tiles))"

declare sliceLoop.simps [code]

definition sliceSprite :: "ImageData \<Rightarrow> TileSettings \<Rightarrow> GridInfo \<Rightarrow> (error + TileData list) option" where
  "sliceSprite img settings gridInfo =
     sliceLoop img settings (rows gridInfo) (cols gridInfo) 0 0 []"


section \<open>ui.ts: the export\<close>

text \<open>
  \<open>exportTiles\<close>, up to the slicing, on a loaded image with its metadata. With validation
  errors the export ends before any tile is extracted (the code shows a status message
  and returns; here the result is the list of errors). Otherwise the layout of
  \<open>calculateGrid\<close> goes to \<open>sliceSprite\<close>. This is the only call of \<open>sliceSprite\<close>, and
  \<open>extractTile\<close> is private to the slicer. The contact sheet and the ZIP file, made from
  the tiles afterwards, are left out.
\<close>

definition exportTiles ::
  "ImageData \<Rightarrow> TileSettings \<Rightarrow> ImageMetadata \<Rightarrow> string list + (error + TileData list) option" where
  "exportTiles img settings imageMetadata =
     (let errors = validateSettings settings imageMetadata
      in if length errors > 0 then Inl errors
         else (let gridInfo = calculateGrid settings imageMetadata
               in Inr (sliceSprite img settings gridInfo)))"


section \<open>Notions of the specification\<close>

text \<open>A scan position \<open>(x, y)\<close> at which the bounding-box loop updates its box.\<close>

definition hit :: "byte list \<Rightarrow> nat \<Rightarrow> nat \<times> nat \<Rightarrow> bool" where
  "hit d w p \<longleftrightarrow> exceeds d ((snd p * w + fst p) * 4 + 3) 0"

text \<open>The bounding box \<open>(minX, minY, maxX, maxY)\<close> of the pixels with alpha above 0
  (of a canvas that has such a pixel).\<close>

definition bounding_box :: "ImageData \<Rightarrow> int \<times> int \<times> int \<times> int" where
  "bounding_box c =
     (Min ((int \<circ> fst) ` opaque c), Min ((int \<circ> snd) ` opaque c),
      Max ((int \<circ> fst) ` opaque c), Max ((int \<circ> snd) ` opaque c))"

text \<open>The bounding box grown by the padding on each side and clamped to the canvas.\<close>

definition padded_box :: "ImageData \<Rightarrow> int \<Rightarrow> int \<times> int \<times> int \<times> int" where
  "padded_box c padding =
     (case bounding_box c of (minX, minY, maxX, maxY) \<Rightarrow>
        (max 0 (minX - padding), max 0 (minY - padding),
         min (int (iwidth c) - 1) (maxX + padding), min (int (iheight c) - 1) (maxY + padding)))"

text \<open>\<open>t\<close> is a copy of the rectangle of \<open>c\<close> with corners \<open>(x0, y0)\<close> and \<open>(x1, y1)\<close>, both
  inclusive: it has that size, and each of its bytes is the byte of \<open>c\<close> at the shifted
  position.\<close>

definition sub_rectangle :: "ImageData \<Rightarrow> ImageData \<Rightarrow> int \<Rightarrow> int \<Rightarrow> int \<Rightarrow> int \<Rightarrow> bool" where
  "sub_rectangle t c x0 y0 x1 y1 \<longleftrightarrow>
     int (iwidth t) = x1 - x0 + 1 \<and> int (iheight t) = y1 - y0 + 1 \<and>
     length (data t) = 4 * (iwidth t * iheight t) \<and>
     (\<forall>i \<in> {..<iwidth t}. \<forall>j \<in> {..<iheight t}. \<forall>k \<in> {..<4}.
        data t ! ((j * iwidth t + i) * 4 + k) =
        data c ! (((nat y0 + j) * iwidth c + (nat x0 + i)) * 4 + k))"

text \<open>A 3 by 2 canvas whose only pixel that is not transparent is at \<open>(1, 0)\<close>.\<close>

definition example_tile :: ImageData where
  "example_tile =
     \<lparr> iwidth = 3, iheight = 2,
       data = [0, 0, 0, 0,  1, 2, 3, 9,  0, 0, 0, 0,
               0, 0, 0, 0,  0, 0, 0, 0,  0, 0, 0, 0] \<rparr>"

text \<open>Tiles of one pixel, with no margin, spacing or offset and no trimming.\<close>

definition example_settings :: TileSettings where
  "example_settings =
     \<lparr> tileWidth = 1, tileHeight = 1, margin = 0, spacing = 0, offsetX = 0, offsetY = 0,
       trimTransparent = False, preservePadding = 0 \<rparr>"

text \<open>The tile that \<open>extractTile\<close> returns at \<open>(r, c)\<close>, and the tiles of a grid in row-major
  order, from row \<open>r0\<close> on.\<close>

definition tile_at :: "ImageData \<Rightarrow> TileSettings \<Rightarrow> nat \<Rightarrow> nat \<Rightarrow> TileData" where
  "tile_at img s r c = projr (extractTile img s (int r) (int c))"

definition row_major :: "ImageData \<Rightarrow> TileSettings \<Rightarrow> nat \<Rightarrow> nat \<Rightarrow> nat \<Rightarrow> TileData list" where
  "row_major img s r0 nr nc = concat (map (\<lambda>r. map (tile_at img s r) [0..<nc]) [r0..<nr])"

text \<open>Every tile of the list carries the index that \<open>extractTile\<close> computes for its row and
  column.\<close>

definition indexed :: "ImageData \<Rightarrow> TileSettings \<Rightarrow> TileData list \<Rightarrow> bool" where
  "indexed img s ts \<longleftrightarrow> (\<forall>t \<in> set ts. index t = tileIndex img s (row t) (col t))"

text \<open>
  Re-assembly, as the specification describes it: the raster is divided into cells of
  \<open>tw\<close> by \<open>th\<close> pixels, and the tile with row \<open>r\<close> and column \<open>c\<close> is placed in the cell
  with origin \<open>(c * tw, r * th)\<close>. A pixel of the result is the pixel of the tile of its cell
  at the position relative to that origin: transparent black where the canvas of the tile
  does not reach, or where the cell has no tile. A tile contributes nothing outside its
  own cell.
\<close>

fun paint :: "TileData list \<Rightarrow> int \<Rightarrow> int \<Rightarrow> int \<Rightarrow> int \<Rightarrow> byte list" where
  "paint [] tw th x y = [0, 0, 0, 0]"
| "paint (t # ts) tw th x y =
     (let lx = x - col t * tw; ly = y - row t * th
      in if 0 \<le> lx \<and> lx < tw \<and> 0 \<le> ly \<and> ly < th
         then source_pixel (canvas t) lx ly
         else paint ts tw th x y)"

definition reassemble :: "TileData list \<Rightarrow> int \<Rightarrow> int \<Rightarrow> nat \<Rightarrow> nat \<Rightarrow> ImageData" where
  "reassemble tiles tw th w h =
     \<lparr> iwidth = w, iheight = h,
       data = concat (map (\<lambda>i. paint tiles tw th (int (i mod w)) (int (i div w))) [0..<w * h]) \<rparr>"

text \<open>The setting of the round trip: a raster whose dimensions the tile size divides, no
  margin, spacing or offset, no trimming.\<close>

definition even_grid :: "ImageData \<Rightarrow> TileSettings \<Rightarrow> bool" where
  "even_grid img s \<longleftrightarrow>
     wf_image img \<and> 0 < iwidth img \<and> 0 < iheight img \<and>
     0 < tileWidth s \<and> 0 < tileHeight s \<and>
     tileWidth s dvd int (iwidth img) \<and> tileHeight s dvd int (iheight img) \<and>
     margin s = 0 \<and> spacing s = 0 \<and> offsetX s = 0 \<and> offsetY s = 0 \<and> \<not> trimTransparent s"

text \<open>The metadata \<open>getImageMetadata\<close> reads off an image (\<open>hasAlpha\<close> left open).\<close>

definition metadata_of :: "ImageData \<Rightarrow> bool \<Rightarrow> ImageMetadata" where
  "metadata_of img a = \<lparr> width = int (iwidth img), height = int (iheight img), hasAlpha = a \<rparr>"

text \<open>The pixel \<open>(x, y)\<close> of the raster lies in the source rectangle of the tile \<open>t\<close>.\<close>

definition in_source_rectangle :: "TileSettings \<Rightarrow> TileData \<Rightarrow> nat \<Rightarrow> nat \<Rightarrow> bool" where
  "in_source_rectangle s t x y \<longleftrightarrow>
     sourceX s (col t) \<le> int x \<and> int x < sourceX s (col t) + tileWidth s \<and>
     sourceY s (row t) \<le> int y \<and> int y < sourceY s (row t) + tileHeight s"


text \<open>The scenario of the specification: a 64 by 64 raster (here transparent) cut into
  32 by 32 tiles.\<close>

definition image64 :: ImageData where
  "image64 = \<lparr> iwidth = 64, iheight = 64, data = replicate 16384 0 \<rparr>"

definition settings32 :: TileSettings where
  "settings32 =
     \<lparr> tileWidth = 32, tileHeight = 32, margin = 0, spacing = 0, offsetX = 0, offsetY = 0,
       trimTransparent = False, preservePadding = 0 \<rparr>"


section \<open>grid.ts: auto-detection of the tile size\<close>

text \<open>The result of a detection: the six fields of the \<open>Partial<TileSettings>\<close> that
  \<open>tryDetectGrid\<close> builds.\<close>

record DetectedSettings =
  detTileWidth :: nat
  detTileHeight :: nat
  detMargin :: nat
  detSpacing :: nat
  detOffsetX :: nat
  detOffsetY :: nat

text \<open>The loop \<open>for (let y = 0; y < height; y += 10)\<close> along the vertical line at \<open>x\<close>:
  false as soon as a sampled pixel has alpha above 128.\<close>

function vertical_scan :: "byte list \<Rightarrow> nat \<Rightarrow> nat \<Rightarrow> nat \<Rightarrow> nat \<Rightarrow> bool" where
  "vertical_scan d w h x y =
     (if y < h
      then (if exceeds d ((y * w + x) * 4 + 3) 128 then False else vertical_scan d w h x (y + 10))
      else True)"
  by pat_completeness auto
termination
  by (relation "measure (\<lambda>(d, w, h, x, y). h - y)") auto

text \<open>The loop \<open>for (let x = 0; x < width; x += 10)\<close> along the horizontal line at \<open>y\<close>.\<close>

function horizontal_scan :: "byte list \<Rightarrow> nat \<Rightarrow> nat \<Rightarrow> nat \<Rightarrow> bool" where
  "horizontal_scan d w y x =
     (if x < w
      then (if exceeds d ((y * w + x) * 4 + 3) 128 then False else horizontal_scan d w y (x + 10))
      else True)"
  by pat_completeness auto
termination
  by (relation "measure (\<lambda>(d, w, y, x). w - x)") auto

text \<open>The loop \<open>for (let col = 1; col < cols; col++)\<close>, counting the consistent vertical
  lines in \<open>consistentVertical\<close>.\<close>

function count_vertical :: "byte list \<Rightarrow> nat \<Rightarrow> nat \<Rightarrow> nat \<Rightarrow> nat \<Rightarrow> nat \<Rightarrow> nat \<Rightarrow> nat" where
  "count_vertical d w h tw ncols cl consistentVertical =
     (if cl < ncols
      then (let x = cl * tw
            in if x < w
               then count_vertical d w h tw ncols (cl + 1)
                      (if vertical_scan d w h x 0 then consistentVertical + 1 else consistentVertical)
               else count_vertical d w h tw ncols (cl + 1) consistentVertical)
      else consistentVertical)"
  by pat_completeness auto
termination
  by (relation "measure (\<lambda>(d, w, h, tw, ncols, cl, acc). ncols - cl)") auto

text \<open>The loop \<open>for (let row = 1; row < rows; row++)\<close>, counting the consistent horizontal
  lines in \<open>consistentHorizontal\<close>.\<close>

function count_horizontal :: "byte list \<Rightarrow> nat \<Rightarrow> nat \<Rightarrow> nat \<Rightarrow> nat \<Rightarrow> nat \<Rightarrow> nat \<Rightarrow> nat" where
  "count_horizontal d w h th nrows rw consistentHorizontal =
     (if rw < nrows
      then (let y = rw * th
            in if y < h
               then count_horizontal d w h th nrows (rw + 1)
                      (if horizontal_scan d w y 0 then consistentHorizontal + 1 else consistentHorizontal)
               else count_horizontal d w h th nrows (rw + 1) consistentHorizontal)
      else consistentHorizontal)"
  by pat_completeness auto
termination
  by (relation "measure (\<lambda>(d, w, h, th, nrows, rw, acc). nrows - rw)") auto

declare vertical_scan.simps [simp del] horizontal_scan.simps [simp del]
  count_vertical.simps [simp del] count_horizontal.simps [simp del]

text \<open>
  \<open>tryDetectGrid\<close> is private and only called with the positive sizes of \<open>commonSizes\<close>, for
  which \<open>Math.floor(width / tileWidth)\<close> is the quotient of naturals. The test
  \<open>consistentVertical >= cols * 0.7\<close> compares an integer with \<open>0.7 * cols\<close>; for integers it
  holds exactly when \<open>7 * cols \<le> 10 * consistentVertical\<close>.
\<close>

definition tryDetectGrid :: "ImageData \<Rightarrow> nat \<Rightarrow> nat \<Rightarrow> DetectedSettings option" where
  "tryDetectGrid imageData tw th =
     (let ncols = iwidth imageData div tw;
          nrows = iheight imageData div th
      in if ncols < 2 \<or> nrows < 2 then None
         else
           (let consistentVertical =
                  count_vertical (data imageData) (iwidth imageData) (iheight imageData) tw ncols 1 0;
                consistentHorizontal =
                  count_horizontal (data imageData) (iwidth imageData) (iheight imageData) th nrows 1 0
            in if 7 * ncols \<le> 10 * consistentVertical \<and> 7 * nrows \<le> 10 * consistentHorizontal
               then Some \<lparr> detTileWidth = tw, detTileHeight = th, detMargin = 0, detSpacing = 0,
                           detOffsetX = 0, detOffsetY = 0 \<rparr>
               else None))"

definition commonSizes :: "nat list" where
  "commonSizes = [16, 24, 32, 48, 64, 96, 128]"

text \<open>The loop \<open>for (const size of commonSizes)\<close>: the first detection wins.\<close>

fun first_detected :: "ImageData \<Rightarrow> nat list \<Rightarrow> DetectedSettings option" where
  "first_detected imageData [] = None"
| "first_detected imageData (sz # sizes) =
     (case tryDetectGrid imageData sz sz of
        Some detected \<Rightarrow> Some detected
      | None \<Rightarrow> first_detected imageData sizes)"

text \<open>The image is drawn on a canvas of its own size and read back; \<open>null\<close> is \<open>None\<close>.\<close>

definition autoDetectTileSize :: "ImageData \<Rightarrow> error + DetectedSettings option" where
  "autoDetectTileSize img =
     (case getImageData img of
        Inl e \<Rightarrow> Inl e
      | Inr d \<Rightarrow> Inr (first_detected \<lparr> iwidth = iwidth img, iheight = iheight img, data = d \<rparr> commonSizes))"

text \<open>A fully transparent 32 by 32 raster.\<close>

definition image32 :: ImageData where
  "image32 = \<lparr> iwidth = 32, iheight = 32, data = replicate 4096 0 \<rparr>"


section \<open>Properties of the grid model\<close>

text \<open>
  C1 (the code departs from the claim). With a margin of 20 on a 10 by 10 image and
  10 by 10 tiles, both raw counts are \<open>-3\<close>: \<open>rows\<close> and \<open>cols\<close> are clamped to 0, but
  \<open>totalTiles\<close> is the clamped product of the raw counts, 9, so the returned record does
  not satisfy \<open>totalTiles = rows * cols\<close>.
\<close>

theorem calculateGrid_totalTiles_mismatch:
  "calculateGrid
     \<lparr> tileWidth = 10, tileHeight = 10, margin = 20, spacing = 0, offsetX = 0, offsetY = 0,
       trimTransparent = False, preservePadding = 0 \<rparr>
     \<lparr> width = 10, height = 10, hasAlpha = False \<rparr>
   = \<lparr> rows = Fin 0, cols = Fin 0, totalTiles = Fin 9 \<rparr>"
  by (simp add: calculateGrid_def floor_div_def)

lemma set_push_if: "set (push_if c msg es) = (if c then insert msg (set es) else set es)"
  by (simp add: push_if_def)

lemma push_if_Nil: "push_if c msg es = [] \<longleftrightarrow> \<not> c \<and> es = []"
  by (simp add: push_if_def)

text \<open>
  C3. \<open>validateSettings\<close> returns the empty list exactly for a feasible geometry, and each
  of the eight messages is in the list exactly when its own constraint is violated,
  whatever the other fields are.
\<close>

theorem validateSettings_spec:
  "(validateSettings s m = [] \<longleftrightarrow> feasible s m) \<and>
   (''Tile width must be greater than 0'' \<in> set (validateSettings s m) \<longleftrightarrow> tileWidth s \<le> 0) \<and>
   (''Tile height must be greater than 0'' \<in> set (validateSettings s m) \<longleftrightarrow> tileHeight s \<le> 0) \<and>
   (''Margin cannot be negative'' \<in> set (validateSettings s m) \<longleftrightarrow> margin s < 0) \<and>
   (''Spacing cannot be negative'' \<in> set (validateSettings s m) \<longleftrightarrow> spacing s < 0) \<and>
   (''Offset X cannot be negative'' \<in> set (validateSettings s m) \<longleftrightarrow> offsetX s < 0) \<and>
   (''Offset Y cannot be negative'' \<in> set (validateSettings s m) \<longleftrightarrow> offsetY s < 0) \<and>
   (width_message (width m) (margin s * 2 + offsetX s + tileWidth s) \<in> set (validateSettings s m)
      \<longleftrightarrow> width m < 2 * margin s + offsetX s + tileWidth s) \<and>
   (height_message (height m) (margin s * 2 + offsetY s + tileHeight s) \<in> set (validateSettings s m)
      \<longleftrightarrow> height m < 2 * margin s + offsetY s + tileHeight s)"
  unfolding validateSettings_def Let_def feasible_def
  apply (intro conjI)
          apply (simp_all add: set_push_if push_if_Nil width_message_def height_message_def)
  apply auto
  done


section \<open>Pixel data of a drawn canvas\<close>

lemma pixel_index_less: "x < w \<Longrightarrow> y < h \<Longrightarrow> y * w + x < w * (h::nat)"
proof -
  assume a: "x < w" "y < h"
  then have "y * w + x < y * w + w" by simp
  also have "\<dots> = (Suc y) * w" by simp
  also have "\<dots> \<le> h * w" using a(2) by (intro mult_le_mono1) simp
  finally show ?thesis by (simp add: mult.commute)
qed

lemma concat_map_len:
  assumes "\<And>i. i < n \<Longrightarrow> length (f i) = 4"
  shows "length (concat (map f [0..<n])) = 4 * n"
  using assms by (induction n) auto

lemma concat_map_nth:
  assumes "\<And>i. i < n \<Longrightarrow> length (f i) = 4" "i < n" "k < 4"
  shows "concat (map f [0..<n]) ! (i * 4 + k) = f i ! k"
  using assms
proof (induction n)
  case 0 then show ?case by simp
next
  case (Suc n)
  have len: "length (concat (map f [0..<n])) = 4 * n"
    using Suc.prems(1) by (intro concat_map_len) simp
  show ?case
  proof (cases "i < n")
    case True
    then have "i * 4 + k < 4 * n" using Suc.prems(3) by arith
    with True Suc show ?thesis by (simp add: nth_append len)
  next
    case False
    with Suc.prems have "i = n" by simp
    then show ?thesis by (simp add: nth_append len)
  qed
qed

lemma set_dimension_nat: "0 \<le> v \<Longrightarrow> v \<le> 2147483647 \<Longrightarrow> set_dimension dflt v = nat v"
  by (simp add: set_dimension_def)

lemma set_dimension_le: "dflt \<le> max_dimension \<Longrightarrow> set_dimension dflt v \<le> max_dimension"
  by (auto simp: set_dimension_def max_dimension_def Let_def)

lemma length_source_pixel: "length (source_pixel src X Y) = 4"
  by (simp add: source_pixel_def Let_def)

lemma source_pixel_nth:
  "x < iwidth src \<Longrightarrow> y < iheight src \<Longrightarrow> k < 4 \<Longrightarrow>
   source_pixel src (int x) (int y) ! k = data src ! ((y * iwidth src + x) * 4 + k)"
  unfolding source_pixel_def Let_def
  by (cases k rule: less_Suc_eq [THEN iffD1, of _ 3, elim_format]) (auto simp: less_Suc_eq numeral_3_eq_3 numeral_2_eq_2 nth_Cons')

lemma canvas_from_dims:
  "iwidth (canvas_from w h src sx sy) = set_dimension 300 w"
  "iheight (canvas_from w h src sx sy) = set_dimension 150 h"
  by (simp_all add: canvas_from_def Let_def)

lemma canvas_from_length:
  "length (data (canvas_from w h src sx sy)) = 4 * (set_dimension 300 w * set_dimension 150 h)"
  unfolding canvas_from_def Let_def
  by (simp del: length_concat) (rule concat_map_len, simp add: length_source_pixel)

lemma canvas_from_nth:
  assumes "x < set_dimension 300 w" "y < set_dimension 150 h" "k < 4"
  shows "data (canvas_from w h src sx sy) ! ((y * set_dimension 300 w + x) * 4 + k) =
           (if int x < w \<and> int y < h then source_pixel src (sx + int x) (sy + int y) else [0, 0, 0, 0]) ! k"
proof -
  let ?cw = "set_dimension 300 w" and ?ch = "set_dimension 150 h"
  have i: "y * ?cw + x < ?cw * ?ch" using assms by (intro pixel_index_less)
  have m: "(y * ?cw + x) mod ?cw = x" "(y * ?cw + x) div ?cw = y" using assms(1) by simp_all
  let ?f = "\<lambda>i. if int (i mod ?cw) < w \<and> int (i div ?cw) < h
                 then source_pixel src (sx + int (i mod ?cw)) (sy + int (i div ?cw))
                 else [0, 0, 0, 0]"
  have "data (canvas_from w h src sx sy) = concat (map ?f [0..<?cw * ?ch])"
    by (simp add: canvas_from_def Let_def)
  moreover have "concat (map ?f [0..<?cw * ?ch]) ! ((y * ?cw + x) * 4 + k) = ?f (y * ?cw + x) ! k"
    by (rule concat_map_nth [OF _ i assms(3)]) (simp add: length_source_pixel)
  ultimately show ?thesis
    by (simp only: m)
qed

lemma wf_canvas_from: "wf_image (canvas_from w h src sx sy)"
  using set_dimension_le [of 300 w] set_dimension_le [of 150 h]
  by (simp add: wf_image_def canvas_from_length canvas_from_dims max_dimension_def)

text \<open>Inside the source, a drawn pixel is the source's pixel.\<close>

lemma canvas_from_copy:
  assumes "0 \<le> w" "w \<le> 2147483647" "0 \<le> h" "h \<le> 2147483647"
    and "i < nat w" "j < nat h" "k < 4" "0 \<le> sx" "0 \<le> sy"
    and "nat sx + i < iwidth src" "nat sy + j < iheight src"
  shows "data (canvas_from w h src sx sy) ! ((j * nat w + i) * 4 + k) =
         data src ! (((nat sy + j) * iwidth src + (nat sx + i)) * 4 + k)"
proof -
  have d: "set_dimension 300 w = nat w" "set_dimension 150 h = nat h"
    using assms by (simp_all add: set_dimension_nat)
  have e: "sx + int i = int (nat sx + i)" "sy + int j = int (nat sy + j)" using assms by simp_all
  have l: "int i < w" "int j < h" using assms by linarith+
  have "data (canvas_from w h src sx sy) ! ((j * nat w + i) * 4 + k)
        = source_pixel src (sx + int i) (sy + int j) ! k"
    using canvas_from_nth [of i w j h k src sx sy] assms l unfolding d by simp
  also have "\<dots> = data src ! (((nat sy + j) * iwidth src + (nat sx + i)) * 4 + k)"
    unfolding e using assms by (intro source_pixel_nth)
  finally show ?thesis .
qed

section \<open>The bounding-box scan\<close>

lemma bbox_fold_flat:
  "fold (\<lambda>y. fold (bbox_step d w y) [0..<w]) ys b =
   fold (\<lambda>p. bbox_step d w (snd p) (fst p)) (concat (map (\<lambda>y. map (\<lambda>x. (x, y)) [0..<w]) ys)) b"
  by (induction ys arbitrary: b) (simp_all add: fold_map comp_def)

lemma bbox_fold_list:
  "fold (\<lambda>p. bbox_step d w (snd p) (fst p)) ps (a, b, c, e) =
     (fold min (map (int \<circ> fst) (filter (hit d w) ps)) a,
      fold min (map (int \<circ> snd) (filter (hit d w) ps)) b,
      fold max (map (int \<circ> fst) (filter (hit d w) ps)) c,
      fold max (map (int \<circ> snd) (filter (hit d w) ps)) e)"
  by (induction ps arbitrary: a b c e) (simp_all add: bbox_step_def hit_def min.commute max.commute)

lemma set_positions:
  "set (concat (map (\<lambda>y. map (\<lambda>x. (x, y)) [0..<w]) [0..<h])) = {(x, y). x < w \<and> y < h}"
  by (auto simp: image_iff)

lemma bbox_scan_Min_Max:
  "bbox_scan d w h =
     (Min (insert (int w) ((int \<circ> fst) ` {p. fst p < w \<and> snd p < h \<and> hit d w p})),
      Min (insert (int h) ((int \<circ> snd) ` {p. fst p < w \<and> snd p < h \<and> hit d w p})),
      Max (insert (- 1) ((int \<circ> fst) ` {p. fst p < w \<and> snd p < h \<and> hit d w p})),
      Max (insert (- 1) ((int \<circ> snd) ` {p. fst p < w \<and> snd p < h \<and> hit d w p})))"
proof -
  let ?ps = "concat (map (\<lambda>y. map (\<lambda>x. (x, y)) [0..<w]) [0..<h])"
  have s: "set (filter (hit d w) ?ps) = {p. fst p < w \<and> snd p < h \<and> hit d w p}"
    by (auto simp: image_iff)
  have m: "fold min (map f (filter (hit d w) ?ps)) a = Min (insert a (f ` {p. fst p < w \<and> snd p < h \<and> hit d w p}))"
    for f :: "nat \<times> nat \<Rightarrow> int" and a
    using Min.set_eq_fold [of a "map f (filter (hit d w) ?ps)"] s by (simp del: set_filter set_concat)
  have M: "fold max (map f (filter (hit d w) ?ps)) a = Max (insert a (f ` {p. fst p < w \<and> snd p < h \<and> hit d w p}))"
    for f :: "nat \<times> nat \<Rightarrow> int" and a
    using Max.set_eq_fold [of a "map f (filter (hit d w) ?ps)"] s by (simp del: set_filter set_concat)
  show ?thesis
    unfolding bbox_scan_def bbox_fold_flat bbox_fold_list m M ..
qed

lemma hit_opaque:
  assumes "wf_image c"
  shows "{p. fst p < iwidth c \<and> snd p < iheight c \<and> hit (data c) (iwidth c) p} = opaque c"
proof -
  have "(y * iwidth c + x) * 4 + 3 < length (data c)" if "x < iwidth c" "y < iheight c" for x y
    using pixel_index_less [OF that] assms by (simp add: wf_image_def)
  then show ?thesis
    by (auto simp: opaque_def hit_def exceeds_def alpha_def)
qed

lemma finite_opaque: "finite (opaque c)"
proof -
  have "opaque c \<subseteq> {..<iwidth c} \<times> {..<iheight c}" by (auto simp: opaque_def)
  then show ?thesis by (rule finite_subset) simp
qed

lemma bbox_scan_opaque:
  assumes "wf_image c"
  shows "bbox_scan (data c) (iwidth c) (iheight c) =
     (Min (insert (int (iwidth c)) ((int \<circ> fst) ` opaque c)),
      Min (insert (int (iheight c)) ((int \<circ> snd) ` opaque c)),
      Max (insert (- 1) ((int \<circ> fst) ` opaque c)),
      Max (insert (- 1) ((int \<circ> snd) ` opaque c)))"
  unfolding bbox_scan_Min_Max hit_opaque [OF assms] ..

lemma opaque_bounds:
  assumes "p \<in> opaque c"
  shows "fst p < iwidth c" "snd p < iheight c"
  using assms by (auto simp: opaque_def)

lemma bounding_box_bounds:
  assumes "opaque c \<noteq> {}" and "bounding_box c = (minX, minY, maxX, maxY)"
  shows "0 \<le> minX" "minX \<le> maxX" "maxX < int (iwidth c)"
        "0 \<le> minY" "minY \<le> maxY" "maxY < int (iheight c)"
proof -
  let ?X = "(int \<circ> fst) ` opaque c" and ?Y = "(int \<circ> snd) ` opaque c"
  have f: "finite ?X" "finite ?Y" "?X \<noteq> {}" "?Y \<noteq> {}"
    using assms(1) finite_opaque by auto
  have e: "minX = Min ?X" "maxX = Max ?X" "minY = Min ?Y" "maxY = Max ?Y"
    using assms(2) by (simp_all add: bounding_box_def)
  have bx: "0 \<le> x \<and> x < int (iwidth c)" if "x \<in> ?X" for x
    using that opaque_bounds(1) by fastforce
  have by': "0 \<le> y \<and> y < int (iheight c)" if "y \<in> ?Y" for y
    using that opaque_bounds(2) by fastforce
  show "0 \<le> minX" unfolding e using f bx by (simp add: Min_ge_iff)
  show "minX \<le> maxX" unfolding e using Min_le [OF f(1) Max_in [OF f(1) f(3)]] .
  show "maxX < int (iwidth c)" unfolding e using f bx by (simp add: Max_less_iff)
  show "0 \<le> minY" unfolding e using f by' by (simp add: Min_ge_iff)
  show "minY \<le> maxY" unfolding e using Min_le [OF f(2) Max_in [OF f(2) f(4)]] .
  show "maxY < int (iheight c)" unfolding e using f by' by (simp add: Max_less_iff)
qed

lemma bbox_scan_empty:
  assumes "wf_image c" "opaque c = {}"
  shows "bbox_scan (data c) (iwidth c) (iheight c) = (int (iwidth c), int (iheight c), - 1, - 1)"
  by (simp add: bbox_scan_opaque [OF assms(1)] assms(2))

lemma bbox_scan_nonempty:
  assumes "wf_image c" "opaque c \<noteq> {}"
  shows "bbox_scan (data c) (iwidth c) (iheight c) = bounding_box c"
proof -
  obtain minX minY maxX maxY where b: "bounding_box c = (minX, minY, maxX, maxY)"
    by (cases "bounding_box c") auto
  note bb = bounding_box_bounds [OF assms(2) b]
  let ?X = "(int \<circ> fst) ` opaque c" and ?Y = "(int \<circ> snd) ` opaque c"
  have f: "finite ?X" "finite ?Y" "?X \<noteq> {}" "?Y \<noteq> {}"
    using assms(2) finite_opaque by auto
  have e: "Min ?X = minX" "Max ?X = maxX" "Min ?Y = minY" "Max ?Y = maxY"
    using b by (simp_all add: bounding_box_def)
  have "Min (insert (int (iwidth c)) ?X) = minX" "Min (insert (int (iheight c)) ?Y) = minY"
       "Max (insert (- 1) ?X) = maxX" "Max (insert (- 1) ?Y) = maxY"
    unfolding Min_insert [OF f(1) f(3)] Min_insert [OF f(2) f(4)]
      Max_insert [OF f(1) f(3)] Max_insert [OF f(2) f(4)] e
    using bb by simp_all
  then show ?thesis
    unfolding bbox_scan_opaque [OF assms(1)] b by simp
qed

lemma trim_empty:
  assumes "wf_image c" "0 < iwidth c" "0 < iheight c" "opaque c = {}"
  shows "trimTransparentEdges c padding = Inr (emptyCanvas, True)"
  using assms by (simp add: trimTransparentEdges_def getImageData_def bbox_scan_empty)

lemma trim_nonempty:
  assumes "wf_image c" "0 < iwidth c" "0 < iheight c" "opaque c \<noteq> {}"
    and "padded_box c padding = (x0, y0, x1, y1)"
  shows "trimTransparentEdges c padding = Inr (canvas_from (x1 - x0 + 1) (y1 - y0 + 1) c x0 y0, False)"
proof -
  obtain minX minY maxX maxY where b: "bounding_box c = (minX, minY, maxX, maxY)"
    by (cases "bounding_box c") auto
  note bb = bounding_box_bounds [OF assms(4) b]
  have "maxX \<noteq> - 1" using bb by linarith
  then show ?thesis
    using assms(2,3,5) b
    by (simp add: trimTransparentEdges_def getImageData_def bbox_scan_nonempty [OF assms(1,4)]
        padded_box_def Let_def)
qed

section \<open>Trimming\<close>

lemma padded_box_bounds:
  assumes "opaque c \<noteq> {}" "0 \<le> padding" "padded_box c padding = (x0, y0, x1, y1)"
  shows "0 \<le> x0" "x0 \<le> x1" "x1 < int (iwidth c)" "0 \<le> y0" "y0 \<le> y1" "y1 < int (iheight c)"
proof -
  obtain minX minY maxX maxY where b: "bounding_box c = (minX, minY, maxX, maxY)"
    by (cases "bounding_box c") auto
  note bb = bounding_box_bounds [OF assms(1) b]
  have e: "x0 = max 0 (minX - padding)" "y0 = max 0 (minY - padding)"
    "x1 = min (int (iwidth c) - 1) (maxX + padding)" "y1 = min (int (iheight c) - 1) (maxY + padding)"
    using assms(3) b by (simp_all add: padded_box_def)
  show "0 \<le> x0" "x0 \<le> x1" "x1 < int (iwidth c)" "0 \<le> y0" "y0 \<le> y1" "y1 < int (iheight c)"
    unfolding e using bb assms(2) by simp_all
qed

lemma crop_dims:
  assumes "wf_image c" "0 \<le> x0" "x0 \<le> x1" "x1 < int (iwidth c)" "0 \<le> y0" "y0 \<le> y1" "y1 < int (iheight c)"
  shows "iwidth (canvas_from (x1 - x0 + 1) (y1 - y0 + 1) c x0 y0) = nat (x1 - x0 + 1)"
    and "iheight (canvas_from (x1 - x0 + 1) (y1 - y0 + 1) c x0 y0) = nat (y1 - y0 + 1)"
proof -
  have "int (iwidth c) \<le> 2147483647" "int (iheight c) \<le> 2147483647"
    using assms(1) by (simp_all add: wf_image_def max_dimension_def)
  then have "x1 - x0 + 1 \<le> 2147483647" "y1 - y0 + 1 \<le> 2147483647" using assms by linarith+
  then show "iwidth (canvas_from (x1 - x0 + 1) (y1 - y0 + 1) c x0 y0) = nat (x1 - x0 + 1)"
    and "iheight (canvas_from (x1 - x0 + 1) (y1 - y0 + 1) c x0 y0) = nat (y1 - y0 + 1)"
    using assms by (simp_all add: canvas_from_dims set_dimension_nat)
qed

lemma crop_nth:
  assumes "wf_image c" "0 \<le> x0" "x0 \<le> x1" "x1 < int (iwidth c)" "0 \<le> y0" "y0 \<le> y1" "y1 < int (iheight c)"
    and "i < nat (x1 - x0 + 1)" "j < nat (y1 - y0 + 1)" "k < 4"
  shows "data (canvas_from (x1 - x0 + 1) (y1 - y0 + 1) c x0 y0) ! ((j * nat (x1 - x0 + 1) + i) * 4 + k) =
         data c ! (((nat y0 + j) * iwidth c + (nat x0 + i)) * 4 + k)"
proof -
  have "int (iwidth c) \<le> 2147483647" "int (iheight c) \<le> 2147483647"
    using assms(1) by (simp_all add: wf_image_def max_dimension_def)
  then have "x1 - x0 + 1 \<le> 2147483647" "y1 - y0 + 1 \<le> 2147483647" using assms by linarith+
  moreover have "nat x0 + i < iwidth c" "nat y0 + j < iheight c" using assms by linarith+
  ultimately show ?thesis
    using assms by (intro canvas_from_copy) simp_all
qed

lemma crop_sub_rectangle:
  assumes "wf_image c" "0 \<le> x0" "x0 \<le> x1" "x1 < int (iwidth c)" "0 \<le> y0" "y0 \<le> y1" "y1 < int (iheight c)"
  shows "sub_rectangle (canvas_from (x1 - x0 + 1) (y1 - y0 + 1) c x0 y0) c x0 y0 x1 y1"
  unfolding sub_rectangle_def crop_dims [OF assms]
  using assms crop_nth [OF assms] wf_canvas_from [of "x1 - x0 + 1" "y1 - y0 + 1" c x0 y0]
  by (simp add: wf_image_def crop_dims [OF assms])

text \<open>
  C6. On a canvas with at least one pixel, with a padding that is not negative:
  if no pixel has alpha above 0 the result is the transparent 1 by 1 canvas, flagged empty;
  otherwise the result is flagged not empty and is a copy of exactly the rectangle
  \<open>padded_box\<close>: the bounding box of the pixels with alpha above 0, grown by the padding
  on each side and clamped to the canvas.
\<close>

theorem trimTransparentEdges_spec:
  assumes "wf_image c" "0 < iwidth c" "0 < iheight c" "0 \<le> padding"
  shows "(opaque c = {} \<longrightarrow> trimTransparentEdges c padding = Inr (emptyCanvas, True)) \<and>
         (opaque c \<noteq> {} \<longrightarrow>
            (\<exists>t. trimTransparentEdges c padding = Inr (t, False) \<and>
                 (case padded_box c padding of (x0, y0, x1, y1) \<Rightarrow> sub_rectangle t c x0 y0 x1 y1)))"
proof (intro conjI impI)
  assume "opaque c = {}"
  then show "trimTransparentEdges c padding = Inr (emptyCanvas, True)"
    using assms by (intro trim_empty)
next
  assume ne: "opaque c \<noteq> {}"
  obtain x0 y0 x1 y1 where p: "padded_box c padding = (x0, y0, x1, y1)"
    by (cases "padded_box c padding") auto
  note pb = padded_box_bounds [OF ne assms(4) p]
  have "trimTransparentEdges c padding = Inr (canvas_from (x1 - x0 + 1) (y1 - y0 + 1) c x0 y0, False)"
    using assms ne p by (intro trim_nonempty)
  moreover have "sub_rectangle (canvas_from (x1 - x0 + 1) (y1 - y0 + 1) c x0 y0) c x0 y0 x1 y1"
    using assms(1) pb by (intro crop_sub_rectangle)
  ultimately show "\<exists>t. trimTransparentEdges c padding = Inr (t, False) \<and>
                 (case padded_box c padding of (x0, y0, x1, y1) \<Rightarrow> sub_rectangle t c x0 y0 x1 y1)"
    using p by simp
qed

theorem trimTransparentEdges_spec_witness:
  "wf_image emptyCanvas \<and> 0 < iwidth emptyCanvas \<and> 0 < iheight emptyCanvas \<and>
   opaque emptyCanvas = {} \<and>
   trimTransparentEdges emptyCanvas 0 = Inr (emptyCanvas, True) \<and>
   wf_image example_tile \<and> 0 < iwidth example_tile \<and> 0 < iheight example_tile \<and>
   opaque example_tile \<noteq> {} \<and>
   (\<exists>t. trimTransparentEdges example_tile 1 = Inr (t, False) \<and>
        (case padded_box example_tile 1 of (x0, y0, x1, y1) \<Rightarrow>
           sub_rectangle t example_tile x0 y0 x1 y1))"
proof -
  have e: "wf_image emptyCanvas" "0 < iwidth emptyCanvas" "0 < iheight emptyCanvas"
    by (simp_all add: wf_image_def emptyCanvas_def max_dimension_def)
  have oe: "opaque emptyCanvas = {}"
    by (auto simp: opaque_def alpha_def emptyCanvas_def)
  have x: "wf_image example_tile" "0 < iwidth example_tile" "0 < iheight example_tile"
    by (simp_all add: wf_image_def example_tile_def max_dimension_def)
  have "(1, 0) \<in> opaque example_tile"
    by (simp add: opaque_def alpha_def example_tile_def)
  then have ox: "opaque example_tile \<noteq> {}" by blast
  show ?thesis
    using trimTransparentEdges_spec [OF e, of 0] trimTransparentEdges_spec [OF x, of 1] e x oe ox
    by simp
qed

text \<open>
  C10. Trimming a canvas of width and height at least 1 with a padding that is not negative
  returns a canvas whose width is between 1 and the width of the original, and whose
  height is between 1 and the height of the original.
\<close>

theorem trim_dimensions:
  assumes "wf_image c" "0 < iwidth c" "0 < iheight c" "0 \<le> padding"
  shows "\<exists>t e. trimTransparentEdges c padding = Inr (t, e) \<and>
           1 \<le> iwidth t \<and> iwidth t \<le> iwidth c \<and> 1 \<le> iheight t \<and> iheight t \<le> iheight c"
proof (cases "opaque c = {}")
  case True
  then have "trimTransparentEdges c padding = Inr (emptyCanvas, True)"
    using assms by (intro trim_empty)
  then show ?thesis using assms by (auto simp: emptyCanvas_def)
next
  case ne: False
  obtain x0 y0 x1 y1 where p: "padded_box c padding = (x0, y0, x1, y1)"
    by (cases "padded_box c padding") auto
  note pb = padded_box_bounds [OF ne assms(4) p]
  have "trimTransparentEdges c padding = Inr (canvas_from (x1 - x0 + 1) (y1 - y0 + 1) c x0 y0, False)"
    using assms ne p by (intro trim_nonempty)
  moreover have "1 \<le> nat (x1 - x0 + 1)" "nat (x1 - x0 + 1) \<le> iwidth c"
    "1 \<le> nat (y1 - y0 + 1)" "nat (y1 - y0 + 1) \<le> iheight c"
    using pb by linarith+
  ultimately show ?thesis
    using crop_dims [OF assms(1) pb] by auto
qed

theorem trim_dimensions_witness:
  "wf_image example_tile \<and> 0 < iwidth example_tile \<and> 0 < iheight example_tile \<and> (0::int) \<le> 5 \<and>
   (\<exists>t e. trimTransparentEdges example_tile 5 = Inr (t, e) \<and>
      1 \<le> iwidth t \<and> iwidth t \<le> iwidth example_tile \<and>
      1 \<le> iheight t \<and> iheight t \<le> iheight example_tile)"
proof -
  have x: "wf_image example_tile" "0 < iwidth example_tile" "0 < iheight example_tile"
    by (simp_all add: wf_image_def example_tile_def max_dimension_def)
  show ?thesis
    using trim_dimensions [OF x, of 5] x by simp
qed


section \<open>Trimming twice\<close>

lemma canvas_from_id:
  assumes "wf_image t"
  shows "canvas_from (int (iwidth t)) (int (iheight t)) t 0 0 = t"
proof -
  let ?w = "iwidth t" and ?h = "iheight t"
  let ?r = "canvas_from (int ?w) (int ?h) t 0 0"
  have b: "int ?w \<le> 2147483647" "int ?h \<le> 2147483647" and len: "length (data t) = 4 * (?w * ?h)"
    using assms by (simp_all add: wf_image_def max_dimension_def)
  have d: "iwidth ?r = ?w" "iheight ?r = ?h"
    using b by (simp_all add: canvas_from_dims set_dimension_nat)
  have l: "length (data ?r) = length (data t)"
    using b by (simp add: canvas_from_length set_dimension_nat len)
  have "data ?r ! n = data t ! n" if n: "n < length (data t)" for n
  proof -
    let ?m = "n div 4" and ?k = "n mod 4"
    have m: "?m < ?w * ?h" using n len by simp
    then have w: "0 < ?w" by (cases "?w = 0") simp_all
    let ?i = "?m mod ?w" and ?j = "?m div ?w"
    have i: "?i < ?w" using w by simp
    have j: "?j < ?h" using m by (simp add: less_mult_imp_div_less mult.commute)
    have e: "(?j * ?w + ?i) * 4 + ?k = n" by simp
    have "data ?r ! ((?j * nat (int ?w) + ?i) * 4 + ?k) =
          data t ! (((nat 0 + ?j) * ?w + (nat 0 + ?i)) * 4 + ?k)"
      using b i j by (intro canvas_from_copy) simp_all
    then show ?thesis using e by simp
  qed
  then have "data ?r = data t" using l by (intro nth_equalityI) simp_all
  then show ?thesis using d by (intro ImageData.equality) simp_all
qed

lemma crop_alpha:
  assumes "wf_image c" "0 \<le> x0" "x0 \<le> x1" "x1 < int (iwidth c)" "0 \<le> y0" "y0 \<le> y1" "y1 < int (iheight c)"
    and "i < nat (x1 - x0 + 1)" "j < nat (y1 - y0 + 1)"
  shows "alpha (canvas_from (x1 - x0 + 1) (y1 - y0 + 1) c x0 y0) i j = alpha c (nat x0 + i) (nat y0 + j)"
  unfolding alpha_def crop_dims [OF assms(1-7)]
  using crop_nth [OF assms, of 3] by simp

lemma crop_opaque:
  assumes "wf_image c" "0 \<le> x0" "x0 \<le> x1" "x1 < int (iwidth c)" "0 \<le> y0" "y0 \<le> y1" "y1 < int (iheight c)"
  shows "(i, j) \<in> opaque (canvas_from (x1 - x0 + 1) (y1 - y0 + 1) c x0 y0) \<longleftrightarrow>
         i < nat (x1 - x0 + 1) \<and> j < nat (y1 - y0 + 1) \<and> (nat x0 + i, nat y0 + j) \<in> opaque c"
proof -
  have "nat x0 + i < iwidth c" if "i < nat (x1 - x0 + 1)" using that assms by linarith
  moreover have "nat y0 + j < iheight c" if "j < nat (y1 - y0 + 1)" using that assms by linarith
  ultimately show ?thesis
    using crop_alpha [OF assms, of i j]
    by (auto simp: opaque_def crop_dims [OF assms])
qed

lemma in_bounding_box:
  assumes "p \<in> opaque c" "bounding_box c = (minX, minY, maxX, maxY)"
  shows "minX \<le> int (fst p)" "int (fst p) \<le> maxX" "minY \<le> int (snd p)" "int (snd p) \<le> maxY"
proof -
  let ?X = "(int \<circ> fst) ` opaque c" and ?Y = "(int \<circ> snd) ` opaque c"
  have f: "finite ?X" "finite ?Y" using finite_opaque by auto
  have m: "int (fst p) \<in> ?X" "int (snd p) \<in> ?Y" using assms(1) by force+
  have e: "minX = Min ?X" "maxX = Max ?X" "minY = Min ?Y" "maxY = Max ?Y"
    using assms(2) by (simp_all add: bounding_box_def)
  show "minX \<le> int (fst p)" "int (fst p) \<le> maxX" "minY \<le> int (snd p)" "int (snd p) \<le> maxY"
    unfolding e using f m by (simp_all only: Min_le Max_ge)
qed

lemma bounding_box_attained:
  assumes "opaque c \<noteq> {}" "bounding_box c = (minX, minY, maxX, maxY)"
  shows "\<exists>p \<in> opaque c. int (fst p) = minX" "\<exists>p \<in> opaque c. int (fst p) = maxX"
        "\<exists>p \<in> opaque c. int (snd p) = minY" "\<exists>p \<in> opaque c. int (snd p) = maxY"
proof -
  let ?X = "(int \<circ> fst) ` opaque c" and ?Y = "(int \<circ> snd) ` opaque c"
  have f: "finite ?X" "finite ?Y" "?X \<noteq> {}" "?Y \<noteq> {}"
    using assms(1) finite_opaque by auto
  have e: "minX = Min ?X" "maxX = Max ?X" "minY = Min ?Y" "maxY = Max ?Y"
    using assms(2) by (simp_all add: bounding_box_def)
  have "minX \<in> ?X" "maxX \<in> ?X" "minY \<in> ?Y" "maxY \<in> ?Y"
    unfolding e
    by (rule Min_in [OF f(1) f(3)], rule Max_in [OF f(1) f(3)],
        rule Min_in [OF f(2) f(4)], rule Max_in [OF f(2) f(4)])
  then show "\<exists>p \<in> opaque c. int (fst p) = minX" "\<exists>p \<in> opaque c. int (fst p) = maxX"
        "\<exists>p \<in> opaque c. int (snd p) = minY" "\<exists>p \<in> opaque c. int (snd p) = maxY"
    by auto
qed

lemma crop_bounding_box:
  assumes "wf_image c" "opaque c \<noteq> {}" "bounding_box c = (minX, minY, maxX, maxY)"
  defines "t \<equiv> canvas_from (maxX - minX + 1) (maxY - minY + 1) c minX minY"
  shows "opaque t \<noteq> {}" "bounding_box t = (0, 0, maxX - minX, maxY - minY)"
proof -
  note bb = bounding_box_bounds [OF assms(2,3)]
  note box = assms(1) bb(1-3) bb(4-6)
  have mem: "(i, j) \<in> opaque t \<longleftrightarrow>
      i < nat (maxX - minX + 1) \<and> j < nat (maxY - minY + 1) \<and> (nat minX + i, nat minY + j) \<in> opaque c"
    for i j unfolding t_def by (rule crop_opaque [OF box])
  have shift: "(fst p - nat minX, snd p - nat minY) \<in> opaque t" if p: "p \<in> opaque c" for p
  proof -
    note ib = in_bounding_box [OF p assms(3)]
    have "nat minX + (fst p - nat minX) = fst p" "nat minY + (snd p - nat minY) = snd p"
      using ib bb by linarith+
    moreover have "fst p - nat minX < nat (maxX - minX + 1)" "snd p - nat minY < nat (maxY - minY + 1)"
      using ib bb by linarith+
    ultimately show ?thesis using p by (simp add: mem)
  qed
  show ne: "opaque t \<noteq> {}" using assms(2) shift by blast
  let ?X = "(int \<circ> fst) ` opaque t" and ?Y = "(int \<circ> snd) ` opaque t"
  have f: "finite ?X" "finite ?Y" using finite_opaque by auto
  have ubx: "x \<le> maxX - minX" if xm: "x \<in> ?X" for x
  proof -
    obtain i j where "(i, j) \<in> opaque t" "x = int i" using xm by auto
    then show ?thesis using mem [of i j] by linarith
  qed
  have uby: "y \<le> maxY - minY" if ym: "y \<in> ?Y" for y
  proof -
    obtain i j where "(i, j) \<in> opaque t" "y = int j" using ym by auto
    then show ?thesis using mem [of i j] by linarith
  qed
  have lb: "0 \<le> x" if "x \<in> ?X" for x using that by auto
  have lby: "0 \<le> y" if "y \<in> ?Y" for y using that by auto
  note at = bounding_box_attained [OF assms(2,3)]
  have "0 \<in> ?X"
  proof -
    obtain p where p: "p \<in> opaque c" "int (fst p) = minX" using at(1) by blast
    have "int (fst (fst p - nat minX, snd p - nat minY)) = 0" using p(2) bb by simp
    then show ?thesis using shift [OF p(1)] by (metis comp_apply image_eqI)
  qed
  then have minx: "Min ?X = 0" using f lb by (intro Min_eqI) auto
  have "maxX - minX \<in> ?X"
  proof -
    obtain p where p: "p \<in> opaque c" "int (fst p) = maxX" using at(2) by blast
    have "int (fst (fst p - nat minX, snd p - nat minY)) = maxX - minX" using p(2) bb by simp
    then show ?thesis using shift [OF p(1)] by (metis comp_apply image_eqI)
  qed
  then have maxx: "Max ?X = maxX - minX" using f ubx by (intro Max_eqI) auto
  have "0 \<in> ?Y"
  proof -
    obtain p where p: "p \<in> opaque c" "int (snd p) = minY" using at(3) by blast
    have "int (snd (fst p - nat minX, snd p - nat minY)) = 0" using p(2) bb by simp
    then show ?thesis using shift [OF p(1)] by (metis comp_apply image_eqI)
  qed
  then have miny: "Min ?Y = 0" using f lby by (intro Min_eqI) auto
  have "maxY - minY \<in> ?Y"
  proof -
    obtain p where p: "p \<in> opaque c" "int (snd p) = maxY" using at(4) by blast
    have "int (snd (fst p - nat minX, snd p - nat minY)) = maxY - minY" using p(2) bb by simp
    then show ?thesis using shift [OF p(1)] by (metis comp_apply image_eqI)
  qed
  then have maxy: "Max ?Y = maxY - minY" using f uby by (intro Max_eqI) auto
  show "bounding_box t = (0, 0, maxX - minX, maxY - minY)"
    unfolding bounding_box_def minx maxx miny maxy ..
qed

lemma trim_emptyCanvas: "trimTransparentEdges emptyCanvas padding = Inr (emptyCanvas, True)"
proof -
  have "wf_image emptyCanvas" "0 < iwidth emptyCanvas" "0 < iheight emptyCanvas"
    by (simp_all add: wf_image_def emptyCanvas_def max_dimension_def)
  moreover have "opaque emptyCanvas = {}"
    by (auto simp: opaque_def alpha_def emptyCanvas_def)
  ultimately show ?thesis by (intro trim_empty)
qed

text \<open>
  C8. Trimming with padding 0 is idempotent: the canvas and the flag that a trim with
  padding 0 returns are returned unchanged by a second trim with padding 0. (Of a trimmed
  canvas that is not empty the bounding box is the whole canvas.)
\<close>

theorem trim_idempotent:
  assumes "wf_image c" "0 < iwidth c" "0 < iheight c"
  shows "\<exists>t e. trimTransparentEdges c 0 = Inr (t, e) \<and> trimTransparentEdges t 0 = Inr (t, e)"
proof (cases "opaque c = {}")
  case True
  then have "trimTransparentEdges c 0 = Inr (emptyCanvas, True)"
    using assms by (intro trim_empty)
  then show ?thesis using trim_emptyCanvas [of 0] by blast
next
  case ne: False
  obtain minX minY maxX maxY where b: "bounding_box c = (minX, minY, maxX, maxY)"
    by (cases "bounding_box c") auto
  note bb = bounding_box_bounds [OF ne b]
  let ?t = "canvas_from (maxX - minX + 1) (maxY - minY + 1) c minX minY"
  have pc: "padded_box c 0 = (minX, minY, maxX, maxY)"
    using b bb by (simp add: padded_box_def)
  have first: "trimTransparentEdges c 0 = Inr (?t, False)"
    using assms ne pc by (intro trim_nonempty)
  have wt: "wf_image ?t" by (rule wf_canvas_from)
  have dt: "iwidth ?t = nat (maxX - minX + 1)" "iheight ?t = nat (maxY - minY + 1)"
    using crop_dims [OF assms(1) bb] by simp_all
  have pos: "0 < iwidth ?t" "0 < iheight ?t" unfolding dt using bb by linarith+
  note cb = crop_bounding_box [OF assms(1) ne b]
  have pt: "padded_box ?t 0 = (0, 0, maxX - minX, maxY - minY)"
    using cb(2) bb by (simp add: padded_box_def dt)
  have "trimTransparentEdges ?t 0 =
          Inr (canvas_from (maxX - minX - 0 + 1) (maxY - minY - 0 + 1) ?t 0 0, False)"
    using wt pos cb(1) pt by (intro trim_nonempty)
  moreover have "canvas_from (maxX - minX - 0 + 1) (maxY - minY - 0 + 1) ?t 0 0 = ?t"
    using canvas_from_id [OF wt] bb by (simp add: dt)
  ultimately have "trimTransparentEdges ?t 0 = Inr (?t, False)" by simp
  with first show ?thesis by blast
qed

theorem trim_idempotent_witness:
  "wf_image example_tile \<and> 0 < iwidth example_tile \<and> 0 < iheight example_tile \<and>
   (\<exists>t e. trimTransparentEdges example_tile 0 = Inr (t, e) \<and> trimTransparentEdges t 0 = Inr (t, e))"
proof -
  have x: "wf_image example_tile" "0 < iwidth example_tile" "0 < iheight example_tile"
    by (simp_all add: wf_image_def example_tile_def max_dimension_def)
  show ?thesis
    using trim_idempotent [OF x] x by simp
qed


section \<open>Extracting a tile\<close>

lemma alpha_scan_from:
  assumes "length d = 4 * n"
  shows "alpha_scan d (m * 4 + 3) \<longleftrightarrow> (\<forall>q. m \<le> q \<and> q < n \<longrightarrow> d ! (q * 4 + 3) = 0)"
proof (induction "n - m" arbitrary: m)
  case 0
  then have "\<not> m * 4 + 3 < length d" using assms by simp
  then have "alpha_scan d (m * 4 + 3)" by (subst alpha_scan.simps) simp
  moreover have "\<forall>q. m \<le> q \<and> q < n \<longrightarrow> d ! (q * 4 + 3) = 0" using 0 by auto
  ultimately show ?case by simp
next
  case (Suc k)
  then have lt: "m * 4 + 3 < length d" using assms by simp
  have ih: "alpha_scan d (Suc m * 4 + 3) \<longleftrightarrow> (\<forall>q. Suc m \<le> q \<and> q < n \<longrightarrow> d ! (q * 4 + 3) = 0)"
    using Suc by (intro Suc.hyps(1)) simp
  have e: "m * 4 + 3 + 4 = Suc m * 4 + 3" by simp
  have "alpha_scan d (m * 4 + 3) \<longleftrightarrow> d ! (m * 4 + 3) = 0 \<and> alpha_scan d (Suc m * 4 + 3)"
    using lt by (subst alpha_scan.simps) (simp add: e word_gt_0 del: alpha_scan.simps)
  also have "\<dots> \<longleftrightarrow> (\<forall>q. m \<le> q \<and> q < n \<longrightarrow> d ! (q * 4 + 3) = 0)"
    unfolding ih using Suc.hyps(2) by (metis Suc_leD Suc_leI le_neq_implies_less less_or_eq_imp_le zero_less_diff zero_less_Suc)
  finally show ?case .
qed

lemma isCanvasEmpty_opaque:
  assumes "wf_image c" "0 < iwidth c" "0 < iheight c"
  shows "isCanvasEmpty c = Inr (opaque c = {})"
proof -
  let ?w = "iwidth c" and ?h = "iheight c"
  have len: "length (data c) = 4 * (?w * ?h)" using assms(1) by (simp add: wf_image_def)
  have "alpha_scan (data c) 3 \<longleftrightarrow> (\<forall>q. q < ?w * ?h \<longrightarrow> data c ! (q * 4 + 3) = 0)"
    using alpha_scan_from [OF len, of 0] by simp
  also have "\<dots> \<longleftrightarrow> opaque c = {}"
  proof
    assume a: "\<forall>q. q < ?w * ?h \<longrightarrow> data c ! (q * 4 + 3) = 0"
    show "opaque c = {}"
    proof (rule ccontr)
      assume "opaque c \<noteq> {}"
      then obtain x y where xy: "x < ?w" "y < ?h" "0 < alpha c x y" by (auto simp: opaque_def)
      then have "y * ?w + x < ?w * ?h" by (intro pixel_index_less)
      then have "data c ! ((y * ?w + x) * 4 + 3) = 0" using a by blast
      then show False using xy(3) unfolding alpha_def by simp
    qed
  next
    assume o: "opaque c = {}"
    show "\<forall>q. q < ?w * ?h \<longrightarrow> data c ! (q * 4 + 3) = 0"
    proof (intro allI impI)
      fix q assume q: "q < ?w * ?h"
      then have w: "0 < ?w" by (cases "?w = 0") simp_all
      have "q mod ?w < ?w" "q div ?w < ?h" using q w by (simp_all add: less_mult_imp_div_less mult.commute)
      then have "\<not> 0 < alpha c (q mod ?w) (q div ?w)" using o by (auto simp: opaque_def)
      then show "data c ! (q * 4 + 3) = 0" by (simp add: alpha_def word_gt_0)
    qed
  qed
  finally show ?thesis using assms by (simp add: isCanvasEmpty_def getImageData_def)
qed

lemma trim_flag:
  assumes "wf_image c" "0 < iwidth c" "0 < iheight c"
  shows "\<exists>t. trimTransparentEdges c padding = Inr (t, opaque c = {})"
proof (cases "opaque c = {}")
  case True
  then show ?thesis using trim_empty [OF assms] by simp
next
  case False
  obtain x0 y0 x1 y1 where "padded_box c padding = (x0, y0, x1, y1)"
    by (cases "padded_box c padding") auto
  then show ?thesis using trim_nonempty [OF assms False] False by simp
qed

lemma extractTile_result:
  assumes "0 < iwidth (tileCanvas img s r c)" "0 < iheight (tileCanvas img s r c)"
  shows "\<exists>cv. extractTile img s r c =
            Inr \<lparr> canvas = cv, row = r, col = c, index = tileIndex img s r c,
                  isEmpty = (opaque (tileCanvas img s r c) = {}) \<rparr> \<and>
          (\<not> trimTransparent s \<longrightarrow> cv = tileCanvas img s r c)"
proof -
  have wf: "wf_image (tileCanvas img s r c)" unfolding tileCanvas_def by (rule wf_canvas_from)
  show ?thesis
  proof (cases "trimTransparent s")
    case True
    obtain t where "trimTransparentEdges (tileCanvas img s r c) (preservePadding s) =
        Inr (t, opaque (tileCanvas img s r c) = {})"
      using trim_flag [OF wf assms] by blast
    then show ?thesis using True by (simp add: extractTile_def Let_def)
  next
    case False
    then show ?thesis
      using isCanvasEmpty_opaque [OF wf assms] by (simp add: extractTile_def Let_def)
  qed
qed

lemma tileCanvas_dims:
  assumes "0 < tileWidth s" "tileWidth s \<le> 2147483647" "0 < tileHeight s" "tileHeight s \<le> 2147483647"
  shows "iwidth (tileCanvas img s r c) = nat (tileWidth s)" "iheight (tileCanvas img s r c) = nat (tileHeight s)"
  using assms by (simp_all add: tileCanvas_def canvas_from_dims set_dimension_nat)

lemma tileCanvas_nth:
  assumes "0 < tileWidth s" "tileWidth s \<le> 2147483647" "0 < tileHeight s" "tileHeight s \<le> 2147483647"
    and "i < nat (tileWidth s)" "j < nat (tileHeight s)" "k < 4"
  shows "data (tileCanvas img s r c) ! ((j * nat (tileWidth s) + i) * 4 + k) =
         source_pixel img (sourceX s c + int i) (sourceY s r + int j) ! k"
proof -
  have d: "set_dimension 300 (tileWidth s) = nat (tileWidth s)"
          "set_dimension 150 (tileHeight s) = nat (tileHeight s)"
    using assms by (simp_all add: set_dimension_nat)
  have l: "int i < tileWidth s" "int j < tileHeight s" using assms by linarith+
  show ?thesis
    unfolding tileCanvas_def
    using canvas_from_nth [of i "tileWidth s" j "tileHeight s" k img "sourceX s c" "sourceY s r"] assms l
    unfolding d by simp
qed

lemma opaque_tileCanvas:
  assumes "0 < tileWidth s" "tileWidth s \<le> 2147483647" "0 < tileHeight s" "tileHeight s \<le> 2147483647"
  shows "opaque (tileCanvas img s r c) = {} \<longleftrightarrow>
         (\<forall>i \<in> {..<nat (tileWidth s)}. \<forall>j \<in> {..<nat (tileHeight s)}.
            source_pixel img (sourceX s c + int i) (sourceY s r + int j) ! 3 = 0)"
proof -
  have a: "alpha (tileCanvas img s r c) i j = source_pixel img (sourceX s c + int i) (sourceY s r + int j) ! 3"
    if "i < nat (tileWidth s)" "j < nat (tileHeight s)" for i j
    unfolding alpha_def tileCanvas_dims [OF assms]
    using tileCanvas_nth [OF assms that, of 3] by simp
  show ?thesis
    unfolding opaque_def tileCanvas_dims [OF assms]
    using a by (auto simp: word_gt_0)
qed

lemma tileCanvas_sub_rectangle:
  assumes "0 < tileWidth s" "tileWidth s \<le> 2147483647" "0 < tileHeight s" "tileHeight s \<le> 2147483647"
    and "0 \<le> sourceX s c" "sourceX s c + tileWidth s \<le> int (iwidth img)"
    and "0 \<le> sourceY s r" "sourceY s r + tileHeight s \<le> int (iheight img)"
  shows "sub_rectangle (tileCanvas img s r c) img (sourceX s c) (sourceY s r)
           (sourceX s c + tileWidth s - 1) (sourceY s r + tileHeight s - 1)"
proof -
  let ?tc = "tileCanvas img s r c"
  note d = tileCanvas_dims [OF assms(1-4), of img r c]
  have len: "length (data ?tc) = 4 * (iwidth ?tc * iheight ?tc)"
    using wf_canvas_from unfolding tileCanvas_def wf_image_def by blast
  have px: "data ?tc ! ((j * iwidth ?tc + i) * 4 + k) =
            data img ! (((nat (sourceY s r) + j) * iwidth img + (nat (sourceX s c) + i)) * 4 + k)"
    if "i < iwidth ?tc" "j < iheight ?tc" "k < 4" for i j k
  proof -
    have "nat (sourceX s c) + i < iwidth img" "nat (sourceY s r) + j < iheight img"
      using that assms unfolding d by linarith+
    moreover have "i < nat (tileWidth s)" "j < nat (tileHeight s)" using that(1,2) unfolding d by simp_all
    ultimately have "data (canvas_from (tileWidth s) (tileHeight s) img (sourceX s c) (sourceY s r))
            ! ((j * nat (tileWidth s) + i) * 4 + k) =
          data img ! (((nat (sourceY s r) + j) * iwidth img + (nat (sourceX s c) + i)) * 4 + k)"
      using assms that(3) by (intro canvas_from_copy) simp_all
    then show ?thesis unfolding d unfolding tileCanvas_def .
  qed
  show ?thesis
    unfolding sub_rectangle_def using len px assms(1,3) by (simp add: d)
qed

text \<open>
  C5. For tile sizes that a canvas can have and a source rectangle inside the image, the
  tile canvas of \<open>extractTile\<close> has exactly the tile size and is a byte-for-byte copy of
  the rectangle of the image with origin \<open>(sourceX, sourceY)\<close>; without trimming it is the
  canvas of the tile that \<open>extractTile\<close> returns. (Ownership is not a notion of the model:
  the tile is a value of its own.)
\<close>

theorem tileCanvas_copy:
  assumes "0 < tileWidth s" "tileWidth s \<le> 2147483647" "0 < tileHeight s" "tileHeight s \<le> 2147483647"
    and "0 \<le> sourceX s c" "sourceX s c + tileWidth s \<le> int (iwidth img)"
    and "0 \<le> sourceY s r" "sourceY s r + tileHeight s \<le> int (iheight img)"
  shows "sourceX s c = margin s + offsetX s + c * (tileWidth s + spacing s) \<and>
         sourceY s r = margin s + offsetY s + r * (tileHeight s + spacing s) \<and>
         int (iwidth (tileCanvas img s r c)) = tileWidth s \<and>
         int (iheight (tileCanvas img s r c)) = tileHeight s \<and>
         sub_rectangle (tileCanvas img s r c) img (sourceX s c) (sourceY s r)
           (sourceX s c + tileWidth s - 1) (sourceY s r + tileHeight s - 1) \<and>
         (\<not> trimTransparent s \<longrightarrow>
            (\<exists>t. extractTile img s r c = Inr t \<and> canvas t = tileCanvas img s r c))"
proof -
  let ?tc = "tileCanvas img s r c"
  note d = tileCanvas_dims [OF assms(1-4), of img r c]
  have "0 < iwidth ?tc" "0 < iheight ?tc" using assms(1,3) by (simp_all add: d)
  then have "\<not> trimTransparent s \<longrightarrow> (\<exists>t. extractTile img s r c = Inr t \<and> canvas t = ?tc)"
    using extractTile_result [of img s r c] by auto
  then show ?thesis
    using tileCanvas_sub_rectangle [OF assms] assms(1,3)
    by (simp add: d sourceX_def sourceY_def)
qed

theorem tileCanvas_copy_witness:
  "0 < tileWidth example_settings \<and> tileWidth example_settings \<le> 2147483647 \<and>
   0 < tileHeight example_settings \<and> tileHeight example_settings \<le> 2147483647 \<and>
   0 \<le> sourceX example_settings 1 \<and>
   sourceX example_settings 1 + tileWidth example_settings \<le> int (iwidth example_tile) \<and>
   0 \<le> sourceY example_settings 0 \<and>
   sourceY example_settings 0 + tileHeight example_settings \<le> int (iheight example_tile) \<and>
   sub_rectangle (tileCanvas example_tile example_settings 0 1) example_tile 1 0 1 0 \<and>
   (\<exists>t. extractTile example_tile example_settings 0 1 = Inr t \<and>
        canvas t = tileCanvas example_tile example_settings 0 1)"
proof -
  have h: "0 < tileWidth example_settings" "tileWidth example_settings \<le> 2147483647"
    "0 < tileHeight example_settings" "tileHeight example_settings \<le> 2147483647"
    "0 \<le> sourceX example_settings 1"
    "sourceX example_settings 1 + tileWidth example_settings \<le> int (iwidth example_tile)"
    "0 \<le> sourceY example_settings 0"
    "sourceY example_settings 0 + tileHeight example_settings \<le> int (iheight example_tile)"
    by (simp_all add: example_settings_def example_tile_def sourceX_def sourceY_def)
  have v: "sourceX example_settings 1 = 1" "sourceY example_settings 0 = 0"
    "tileWidth example_settings = 1" "tileHeight example_settings = 1"
    "\<not> trimTransparent example_settings"
    by (simp_all add: example_settings_def sourceX_def sourceY_def)
  show ?thesis
    using tileCanvas_copy [OF h] h v by simp
qed

text \<open>
  C9. For tile sizes that a canvas can have, \<open>extractTile\<close> returns a tile, with and
  without trimming, and the tile is flagged empty exactly when every pixel of its source
  rectangle has alpha 0 (a position outside the image counts as transparent): a tile with
  a pixel of alpha above 0 is never flagged empty.
\<close>

theorem extractTile_isEmpty:
  assumes "0 < tileWidth s" "tileWidth s \<le> 2147483647" "0 < tileHeight s" "tileHeight s \<le> 2147483647"
  shows "\<exists>t. extractTile img s r c = Inr t \<and>
           (isEmpty t \<longleftrightarrow>
              (\<forall>i \<in> {..<nat (tileWidth s)}. \<forall>j \<in> {..<nat (tileHeight s)}.
                 source_pixel img (sourceX s c + int i) (sourceY s r + int j) ! 3 = 0))"
proof -
  have "0 < iwidth (tileCanvas img s r c)" "0 < iheight (tileCanvas img s r c)"
    using assms by (simp_all add: tileCanvas_dims)
  from extractTile_result [OF this]
  show ?thesis unfolding opaque_tileCanvas [OF assms] by auto
qed

theorem extractTile_isEmpty_witness:
  "0 < tileWidth example_settings \<and> tileWidth example_settings \<le> 2147483647 \<and>
   0 < tileHeight example_settings \<and> tileHeight example_settings \<le> 2147483647 \<and>
   (\<exists>t. extractTile example_tile example_settings 0 1 = Inr t \<and> \<not> isEmpty t) \<and>
   (\<exists>t. extractTile example_tile (example_settings\<lparr>trimTransparent := True\<rparr>) 0 1 = Inr t \<and> \<not> isEmpty t) \<and>
   (\<exists>t. extractTile example_tile example_settings 0 0 = Inr t \<and> isEmpty t) \<and>
   (\<exists>t. extractTile example_tile (example_settings\<lparr>trimTransparent := True\<rparr>) 0 0 = Inr t \<and> isEmpty t)"
proof -
  have h: "0 < tileWidth example_settings" "tileWidth example_settings \<le> 2147483647"
    "0 < tileHeight example_settings" "tileHeight example_settings \<le> 2147483647"
    by (simp_all add: example_settings_def)
  let ?s = "example_settings\<lparr>trimTransparent := True\<rparr>"
  have h': "0 < tileWidth ?s" "tileWidth ?s \<le> 2147483647" "0 < tileHeight ?s" "tileHeight ?s \<le> 2147483647"
    by (simp_all add: example_settings_def)
  have v: "source_pixel example_tile 1 0 ! 3 = 9" "source_pixel example_tile 0 0 ! 3 = 0"
    by (simp_all add: source_pixel_def example_tile_def)
  have w: "sourceX example_settings 1 = 1" "sourceX example_settings 0 = 0" "sourceY example_settings 0 = 0"
    "sourceX ?s 1 = 1" "sourceX ?s 0 = 0" "sourceY ?s 0 = 0"
    "nat (tileWidth example_settings) = 1" "nat (tileHeight example_settings) = 1"
    "nat (tileWidth ?s) = 1" "nat (tileHeight ?s) = 1"
    by (simp_all add: example_settings_def sourceX_def sourceY_def)
  show ?thesis
    using extractTile_isEmpty [OF h, of example_tile 0 1] extractTile_isEmpty [OF h', of example_tile 0 1]
      extractTile_isEmpty [OF h, of example_tile 0 0] extractTile_isEmpty [OF h', of example_tile 0 0] h
    unfolding w by (simp add: v)
qed


section \<open>The slicing loop\<close>

lemma sliceLoop_inner:
  assumes ok: "\<And>r c. \<exists>t. extractTile img s r c = Inr t"
    and "r < nr" "c \<le> nc"
  shows "sliceLoop img s (Fin (int nr)) (Fin (int nc)) (int r) (int c) tiles =
         sliceLoop img s (Fin (int nr)) (Fin (int nc)) (int r + 1) 0
           (tiles @ map (tile_at img s r) [c..<nc])"
  using assms(3)
proof (induction "nc - c" arbitrary: c tiles)
  case 0
  then have "c = nc" by simp
  then show ?case using assms(2) by (subst sliceLoop.simps) simp
next
  case (Suc k)
  then have lt: "c < nc" by simp
  obtain t where t: "extractTile img s (int r) (int c) = Inr t" using ok by blast
  then have ta: "tile_at img s r c = t" by (simp add: tile_at_def)
  have "sliceLoop img s (Fin (int nr)) (Fin (int nc)) (int r) (int c) tiles =
        sliceLoop img s (Fin (int nr)) (Fin (int nc)) (int r) (int (Suc c)) (tiles @ [t])"
    using lt assms(2) t by (subst sliceLoop.simps) (simp add: add.commute)
  also have "\<dots> = sliceLoop img s (Fin (int nr)) (Fin (int nc)) (int r + 1) 0
           ((tiles @ [t]) @ map (tile_at img s r) [Suc c..<nc])"
    using Suc lt by (intro Suc.hyps(1)) simp_all
  also have "(tiles @ [t]) @ map (tile_at img s r) [Suc c..<nc] = tiles @ map (tile_at img s r) [c..<nc]"
    using lt ta by (simp add: upt_conv_Cons)
  finally show ?case .
qed

lemma sliceLoop_outer:
  assumes ok: "\<And>r c. \<exists>t. extractTile img s r c = Inr t"
    and "r \<le> nr"
  shows "sliceLoop img s (Fin (int nr)) (Fin (int nc)) (int r) 0 tiles =
         Some (Inr (tiles @ row_major img s r nr nc))"
  using assms(2)
proof (induction "nr - r" arbitrary: r tiles)
  case 0
  then have "r = nr" by simp
  then show ?case by (subst sliceLoop.simps) (simp add: row_major_def)
next
  case (Suc k)
  then have lt: "r < nr" by simp
  have "sliceLoop img s (Fin (int nr)) (Fin (int nc)) (int r) 0 tiles =
        sliceLoop img s (Fin (int nr)) (Fin (int nc)) (int (Suc r)) 0
           (tiles @ map (tile_at img s r) [0..<nc])"
    using sliceLoop_inner [OF ok lt, of 0 nc tiles] by (simp add: add.commute)
  also have "\<dots> = Some (Inr ((tiles @ map (tile_at img s r) [0..<nc]) @ row_major img s (Suc r) nr nc))"
    using Suc lt by (intro Suc.hyps(1)) simp_all
  also have "(tiles @ map (tile_at img s r) [0..<nc]) @ row_major img s (Suc r) nr nc =
             tiles @ row_major img s r nr nc"
    using lt by (simp add: row_major_def upt_conv_Cons)
  finally show ?case .
qed

lemma length_row_major: "length (row_major img s 0 nr nc) = nr * nc"
  by (simp add: row_major_def length_concat comp_def sum_list_triv)

lemma row_major_nth:
  assumes "r < nr" "c < nc"
  shows "row_major img s 0 nr nc ! (r * nc + c) = tile_at img s r c"
  using assms(1)
proof (induction nr)
  case 0 then show ?case by simp
next
  case (Suc n)
  have split: "row_major img s 0 (Suc n) nc = row_major img s 0 n nc @ map (tile_at img s n) [0..<nc]"
    by (simp add: row_major_def)
  show ?case
  proof (cases "r < n")
    case True
    then have "r * nc + c < n * nc"
      using pixel_index_less [of c nc r n] assms(2) by (simp add: mult.commute)
    then show ?thesis using Suc True by (simp add: split nth_append length_row_major)
  next
    case False
    then have "r = n" using Suc.prems by simp
    then show ?thesis using assms(2) by (simp add: split nth_append length_row_major)
  qed
qed


section \<open>Slicing and re-assembling\<close>

lemma even_grid_sizes:
  assumes "even_grid img s"
  shows "tileWidth s \<le> 2147483647" "tileHeight s \<le> 2147483647"
proof -
  have "tileWidth s \<le> int (iwidth img)" "tileHeight s \<le> int (iheight img)"
    using assms by (auto simp: even_grid_def intro: zdvd_imp_le)
  moreover have "int (iwidth img) \<le> 2147483647" "int (iheight img) \<le> 2147483647"
    using assms by (simp_all add: even_grid_def wf_image_def max_dimension_def)
  ultimately show "tileWidth s \<le> 2147483647" "tileHeight s \<le> 2147483647" by linarith+
qed

lemma even_grid_ok:
  assumes "even_grid img s"
  shows "\<exists>t. extractTile img s r c = Inr t"
proof -
  have p: "0 < tileWidth s" "0 < tileHeight s" using assms by (simp_all add: even_grid_def)
  have "0 < iwidth (tileCanvas img s r c)" "0 < iheight (tileCanvas img s r c)"
    using p even_grid_sizes [OF assms] by (simp_all add: tileCanvas_dims)
  from extractTile_result [OF this] show ?thesis by blast
qed

lemma even_grid_calculateGrid:
  assumes "even_grid img s"
  shows "calculateGrid s (metadata_of img a) =
         \<lparr> rows = Fin (int (iheight img div nat (tileHeight s))),
           cols = Fin (int (iwidth img div nat (tileWidth s))),
           totalTiles = Fin (int ((iheight img div nat (tileHeight s)) * (iwidth img div nat (tileWidth s)))) \<rparr>"
proof -
  have p: "0 < tileWidth s" "0 < tileHeight s" "margin s = 0" "spacing s = 0" "offsetX s = 0" "offsetY s = 0"
    using assms by (simp_all add: even_grid_def)
  have d: "int (iwidth img) div tileWidth s = int (iwidth img div nat (tileWidth s))"
          "int (iheight img) div tileHeight s = int (iheight img div nat (tileHeight s))"
    using p by (simp_all add: zdiv_int)
  show ?thesis
    using p by (simp add: calculateGrid_def metadata_of_def floor_div_def d)
qed

lemma cell_end_le:
  assumes "c < w div t"
  shows "(c + 1) * t \<le> (w::nat)"
proof -
  have "(c + 1) * t \<le> (w div t) * t" using assms by (intro mult_le_mono1) simp
  also have "\<dots> \<le> w" by simp
  finally show ?thesis .
qed

lemma even_grid_tile:
  assumes "even_grid img s" "r < iheight img div nat (tileHeight s)" "c < iwidth img div nat (tileWidth s)"
  shows "row (tile_at img s r c) = int r" "col (tile_at img s r c) = int c"
    "canvas (tile_at img s r c) = tileCanvas img s (int r) (int c)"
    "iwidth (canvas (tile_at img s r c)) = nat (tileWidth s)"
    "iheight (canvas (tile_at img s r c)) = nat (tileHeight s)"
    "sub_rectangle (tileCanvas img s (int r) (int c)) img (int c * tileWidth s) (int r * tileHeight s)
       (int c * tileWidth s + tileWidth s - 1) (int r * tileHeight s + tileHeight s - 1)"
proof -
  have p: "0 < tileWidth s" "0 < tileHeight s" "margin s = 0" "spacing s = 0" "offsetX s = 0" "offsetY s = 0"
     "\<not> trimTransparent s"
    using assms(1) by (simp_all add: even_grid_def)
  note sz = even_grid_sizes [OF assms(1)]
  note d = tileCanvas_dims [OF p(1) sz(1) p(2) sz(2), of img "int r" "int c"]
  have pos: "0 < iwidth (tileCanvas img s (int r) (int c))" "0 < iheight (tileCanvas img s (int r) (int c))"
    using p d by simp_all
  from extractTile_result [OF pos] p(7)
  have e: "extractTile img s (int r) (int c) =
     Inr \<lparr> canvas = tileCanvas img s (int r) (int c), row = int r, col = int c,
           index = tileIndex img s (int r) (int c),
           isEmpty = (opaque (tileCanvas img s (int r) (int c)) = {}) \<rparr>" by auto
  show "row (tile_at img s r c) = int r" "col (tile_at img s r c) = int c"
    "canvas (tile_at img s r c) = tileCanvas img s (int r) (int c)"
    by (simp_all add: tile_at_def e)
  then show "iwidth (canvas (tile_at img s r c)) = nat (tileWidth s)"
    "iheight (canvas (tile_at img s r c)) = nat (tileHeight s)"
    by (simp_all add: d)
  have sx: "sourceX s (int c) = int c * tileWidth s" "sourceY s (int r) = int r * tileHeight s"
    using p by (simp_all add: sourceX_def sourceY_def)
  have "(c + 1) * nat (tileWidth s) \<le> iwidth img"
    using assms(3) by (rule cell_end_le)
  then have "int ((c + 1) * nat (tileWidth s)) \<le> int (iwidth img)" by linarith
  then have bx: "int c * tileWidth s + tileWidth s \<le> int (iwidth img)"
    using p(1) by (simp add: algebra_simps)
  have "(r + 1) * nat (tileHeight s) \<le> iheight img"
    using assms(2) by (rule cell_end_le)
  then have "int ((r + 1) * nat (tileHeight s)) \<le> int (iheight img)" by linarith
  then have by': "int r * tileHeight s + tileHeight s \<le> int (iheight img)"
    using p(2) by (simp add: algebra_simps)
  show "sub_rectangle (tileCanvas img s (int r) (int c)) img (int c * tileWidth s) (int r * tileHeight s)
       (int c * tileWidth s + tileWidth s - 1) (int r * tileHeight s + tileHeight s - 1)"
    using tileCanvas_sub_rectangle [OF p(1) sz(1) p(2) sz(2), of "int c" img "int r"] bx by' p(1,2)
    unfolding sx by simp
qed

lemma cell_iff:
  assumes "0 < (t::nat)"
  shows "(0 \<le> int x - int c * int t \<and> int x - int c * int t < int t) \<longleftrightarrow> c = x div t"
proof -
  have "(0 \<le> int x - int c * int t \<and> int x - int c * int t < int t) \<longleftrightarrow> (c * t \<le> x \<and> x < c * t + t)"
  proof -
    have "int c * int t = int (c * t)" by simp
    then show ?thesis by (simp only: ) linarith
  qed
  also have "\<dots> \<longleftrightarrow> c = x div t"
  proof
    assume "c * t \<le> x \<and> x < c * t + t"
    then have "x div t = c" by (intro div_nat_eqI) (simp_all add: mult.commute)
    then show "c = x div t" by simp
  next
    assume c: "c = x div t"
    have "x div t * t \<le> x" by simp
    moreover have "x < x div t * t + t" using assms dividend_less_div_times [of t x] by (simp add: add.commute)
    ultimately show "c * t \<le> x \<and> x < c * t + t" using c by simp
  qed
  finally show ?thesis .
qed

lemma cell_less:
  assumes "t dvd h" "y < (h::nat)"
  shows "y div t < h div t"
proof -
  have "h = h div t * t" using assms(1) by simp
  then have "y < h div t * t" using assms(2) by simp
  then show ?thesis by (rule less_mult_imp_div_less)
qed

lemma even_grid_cell:
  assumes "even_grid img s" "x < iwidth img" "y < iheight img"
  shows "y div nat (tileHeight s) < iheight img div nat (tileHeight s)"
        "x div nat (tileWidth s) < iwidth img div nat (tileWidth s)"
proof -
  have "int (nat (tileWidth s)) dvd int (iwidth img)" "int (nat (tileHeight s)) dvd int (iheight img)"
    using assms(1) by (simp_all add: even_grid_def)
  then have "nat (tileWidth s) dvd iwidth img" "nat (tileHeight s) dvd iheight img"
    by (simp_all only: int_dvd_int_iff)
  then show "y div nat (tileHeight s) < iheight img div nat (tileHeight s)"
        "x div nat (tileWidth s) < iwidth img div nat (tileWidth s)"
    using assms(2,3) by (simp_all add: cell_less)
qed

lemma paint_finds:
  assumes eg: "even_grid img s" and xy: "x < iwidth img" "y < iheight img"
    and all: "\<forall>t \<in> set ts. \<exists>r c. r < iheight img div nat (tileHeight s) \<and>
                c < iwidth img div nat (tileWidth s) \<and> t = tile_at img s r c"
    and mem: "tile_at img s (y div nat (tileHeight s)) (x div nat (tileWidth s)) \<in> set ts"
  shows "paint ts (tileWidth s) (tileHeight s) (int x) (int y) =
         source_pixel (tileCanvas img s (int (y div nat (tileHeight s))) (int (x div nat (tileWidth s))))
           (int (x mod nat (tileWidth s))) (int (y mod nat (tileHeight s)))"
  using all mem
proof (induction ts)
  case Nil
  then show ?case by simp
next
  case (Cons t ts)
  let ?TW = "nat (tileWidth s)" and ?TH = "nat (tileHeight s)"
  have p: "0 < ?TW" "0 < ?TH" "tileWidth s = int ?TW" "tileHeight s = int ?TH"
    using eg by (simp_all add: even_grid_def)
  obtain r c where rc: "r < iheight img div ?TH" "c < iwidth img div ?TW" "t = tile_at img s r c"
    using Cons.prems(1) by auto
  note tf = even_grid_tile [OF eg rc(1,2)]
  have cover: "(0 \<le> int x - col t * tileWidth s \<and> int x - col t * tileWidth s < tileWidth s \<and>
                0 \<le> int y - row t * tileHeight s \<and> int y - row t * tileHeight s < tileHeight s)
               \<longleftrightarrow> c = x div ?TW \<and> r = y div ?TH"
    unfolding rc(3) tf(1,2)
    using cell_iff [OF p(1), of x c] cell_iff [OF p(2), of y r] p(3,4) by auto
  show ?case
  proof (cases "c = x div ?TW \<and> r = y div ?TH")
    case True
    have "int x - int c * int ?TW = int (x mod ?TW)" "int y - int r * int ?TH = int (y mod ?TH)"
      using True by (simp_all add: zmod_int zdiv_int minus_div_mult_eq_mod [symmetric] algebra_simps)
    then have l: "int x - col t * tileWidth s = int (x mod ?TW)" "int y - row t * tileHeight s = int (y mod ?TH)"
      unfolding rc(3) tf(1,2) using p(3,4) by simp_all
    have cv: "canvas t = tileCanvas img s (int (y div ?TH)) (int (x div ?TW))"
      using tf(3) True unfolding rc(3) by simp
    have cov: "0 \<le> int x - col t * tileWidth s \<and> int x - col t * tileWidth s < tileWidth s \<and>
                0 \<le> int y - row t * tileHeight s \<and> int y - row t * tileHeight s < tileHeight s"
      using cover True by blast
    have "paint (t # ts) (tileWidth s) (tileHeight s) (int x) (int y) =
          source_pixel (canvas t) (int x - col t * tileWidth s) (int y - row t * tileHeight s)"
      by (simp only: paint.simps Let_def cov simp_thms if_True)
    then have "paint (t # ts) (tileWidth s) (tileHeight s) (int x) (int y) =
          source_pixel (canvas t) (int (x mod ?TW)) (int (y mod ?TH))"
      unfolding l .
    then show ?thesis unfolding cv .
  next
    case False
    note tg = even_grid_tile [OF eg even_grid_cell [OF eg xy]]
    have "t \<noteq> tile_at img s (y div ?TH) (x div ?TW)"
    proof
      assume "t = tile_at img s (y div ?TH) (x div ?TW)"
      then have "int r = int (y div ?TH)" "int c = int (x div ?TW)"
        using tf(1,2) tg(1,2) unfolding rc(3) by simp_all
      then show False using False by simp
    qed
    then have "tile_at img s (y div ?TH) (x div ?TW) \<in> set ts" using Cons.prems(2) by simp
    then have "paint ts (tileWidth s) (tileHeight s) (int x) (int y) =
         source_pixel (tileCanvas img s (int (y div ?TH)) (int (x div ?TW))) (int (x mod ?TW)) (int (y mod ?TH))"
      using Cons.prems(1) by (intro Cons.IH) simp_all
    moreover have ncov: "\<not> (0 \<le> int x - col t * tileWidth s \<and> int x - col t * tileWidth s < tileWidth s \<and>
                0 \<le> int y - row t * tileHeight s \<and> int y - row t * tileHeight s < tileHeight s)"
      using cover False by blast
    have "paint (t # ts) (tileWidth s) (tileHeight s) (int x) (int y) =
          paint ts (tileWidth s) (tileHeight s) (int x) (int y)"
      by (simp only: paint.simps Let_def ncov simp_thms if_False)
    ultimately show ?thesis by simp
  qed
qed

lemma length_paint: "length (paint ts tw th x y) = 4"
  by (induction ts) (simp_all add: Let_def length_source_pixel)

lemma set_row_major:
  "set (row_major img s 0 nr nc) = {t. \<exists>r c. r < nr \<and> c < nc \<and> t = tile_at img s r c}"
  by (fastforce simp: row_major_def)

lemma even_grid_pixel:
  assumes eg: "even_grid img s" and xy: "x < iwidth img" "y < iheight img" and k: "k < 4"
  shows "paint (row_major img s 0 (iheight img div nat (tileHeight s)) (iwidth img div nat (tileWidth s)))
           (tileWidth s) (tileHeight s) (int x) (int y) ! k =
         data img ! ((y * iwidth img + x) * 4 + k)"
proof -
  let ?TW = "nat (tileWidth s)" and ?TH = "nat (tileHeight s)"
  let ?nr = "iheight img div ?TH" and ?nc = "iwidth img div ?TW"
  let ?r = "y div ?TH" and ?c = "x div ?TW"
  let ?tc = "tileCanvas img s (int ?r) (int ?c)"
  have p: "0 < ?TW" "0 < ?TH" "tileWidth s = int ?TW" "tileHeight s = int ?TH"
    using eg by (simp_all add: even_grid_def)
  note cell = even_grid_cell [OF eg xy]
  note tf = even_grid_tile [OF eg cell]
  have d: "iwidth ?tc = ?TW" "iheight ?tc = ?TH" using tf(3,4,5) by simp_all
  have lt: "x mod ?TW < iwidth ?tc" "y mod ?TH < iheight ?tc" using p d by simp_all
  have "paint (row_major img s 0 ?nr ?nc) (tileWidth s) (tileHeight s) (int x) (int y) =
        source_pixel ?tc (int (x mod ?TW)) (int (y mod ?TH))"
    using cell by (intro paint_finds [OF eg xy]) (auto simp: set_row_major)
  then have "paint (row_major img s 0 ?nr ?nc) (tileWidth s) (tileHeight s) (int x) (int y) ! k =
        data ?tc ! ((y mod ?TH * iwidth ?tc + x mod ?TW) * 4 + k)"
    using source_pixel_nth [OF lt k] by simp
  also have "\<dots> = data img ! (((nat (int ?r * tileHeight s) + y mod ?TH) * iwidth img
                        + (nat (int ?c * tileWidth s) + x mod ?TW)) * 4 + k)"
    using tf(6) lt k unfolding sub_rectangle_def by simp
  also have "nat (int ?r * tileHeight s) + y mod ?TH = y"
    by (simp add: nat_mult_distrib)
  also have "nat (int ?c * tileWidth s) + x mod ?TW = x"
    by (simp add: nat_mult_distrib)
  finally show ?thesis .
qed

lemma even_grid_reassemble:
  assumes eg: "even_grid img s"
  shows "reassemble (row_major img s 0 (iheight img div nat (tileHeight s)) (iwidth img div nat (tileWidth s)))
           (tileWidth s) (tileHeight s) (iwidth img) (iheight img) = img"
proof -
  let ?w = "iwidth img" and ?h = "iheight img"
  let ?ts = "row_major img s 0 (iheight img div nat (tileHeight s)) (iwidth img div nat (tileWidth s))"
  let ?f = "\<lambda>i. paint ?ts (tileWidth s) (tileHeight s) (int (i mod ?w)) (int (i div ?w))"
  have len: "length (data img) = 4 * (?w * ?h)" and w: "0 < ?w"
    using eg by (simp_all add: even_grid_def wf_image_def)
  have l: "length (concat (map ?f [0..<?w * ?h])) = length (data img)"
    unfolding len by (rule concat_map_len) (rule length_paint)
  have "concat (map ?f [0..<?w * ?h]) ! n = data img ! n" if n: "n < length (data img)" for n
  proof -
    let ?m = "n div 4" and ?k = "n mod 4"
    have m: "?m < ?w * ?h" using n len by simp
    have x: "?m mod ?w < ?w" using w by simp
    have y: "?m div ?w < ?h" using m by (simp add: less_mult_imp_div_less mult.commute)
    have "concat (map ?f [0..<?w * ?h]) ! (?m * 4 + ?k) = ?f ?m ! ?k"
      by (rule concat_map_nth [OF _ m]) (simp_all add: length_paint)
    also have "\<dots> = data img ! ((?m div ?w * ?w + ?m mod ?w) * 4 + ?k)"
      by (rule even_grid_pixel [OF eg x y]) simp
    finally show ?thesis by simp
  qed
  then have "concat (map ?f [0..<?w * ?h]) = data img" using l by (intro nth_equalityI) simp_all
  then show ?thesis by (intro ImageData.equality) (simp_all add: reassemble_def)
qed

lemma even_grid_unique_tile:
  assumes eg: "even_grid img s" and xy: "x < iwidth img" "y < iheight img"
  shows "\<exists>!k. k < length (row_major img s 0 (iheight img div nat (tileHeight s)) (iwidth img div nat (tileWidth s))) \<and>
              in_source_rectangle s
                (row_major img s 0 (iheight img div nat (tileHeight s)) (iwidth img div nat (tileWidth s)) ! k) x y"
proof -
  let ?TW = "nat (tileWidth s)" and ?TH = "nat (tileHeight s)"
  let ?nr = "iheight img div ?TH" and ?nc = "iwidth img div ?TW"
  let ?ts = "row_major img s 0 ?nr ?nc"
  have p: "0 < ?TW" "0 < ?TH" "tileWidth s = int ?TW" "tileHeight s = int ?TH"
    "margin s = 0" "spacing s = 0" "offsetX s = 0" "offsetY s = 0"
    using eg by (simp_all add: even_grid_def)
  note cell = even_grid_cell [OF eg xy]
  have inside: "in_source_rectangle s (?ts ! (r * ?nc + c)) x y \<longleftrightarrow> c = x div ?TW \<and> r = y div ?TH"
    if rc: "r < ?nr" "c < ?nc" for r c
  proof -
    note tf = even_grid_tile [OF eg rc]
    have "in_source_rectangle s (tile_at img s r c) x y \<longleftrightarrow>
          (0 \<le> int x - int c * int ?TW \<and> int x - int c * int ?TW < int ?TW) \<and>
          (0 \<le> int y - int r * int ?TH \<and> int y - int r * int ?TH < int ?TH)"
      unfolding in_source_rectangle_def tf(1,2) sourceX_def sourceY_def
      using p by auto
    then show ?thesis
      unfolding row_major_nth [OF rc] cell_iff [OF p(1)] cell_iff [OF p(2)] .
  qed
  show ?thesis
  proof (rule ex1I [of _ "y div ?TH * ?nc + x div ?TW"])
    have "y div ?TH * ?nc + x div ?TW < ?nc * ?nr"
      using cell by (intro pixel_index_less)
    then show "y div ?TH * ?nc + x div ?TW < length ?ts \<and>
               in_source_rectangle s (?ts ! (y div ?TH * ?nc + x div ?TW)) x y"
      using inside [OF cell] by (simp add: length_row_major mult.commute)
  next
    fix k assume k: "k < length ?ts \<and> in_source_rectangle s (?ts ! k) x y"
    then have kl: "k < ?nr * ?nc" by (simp add: length_row_major)
    then have nc: "0 < ?nc" by (cases "?nc = 0") simp_all
    have rc: "k div ?nc < ?nr" "k mod ?nc < ?nc"
      using kl nc by (simp_all add: less_mult_imp_div_less)
    have e: "k div ?nc * ?nc + k mod ?nc = k" by (rule div_mult_mod_eq)
    have "in_source_rectangle s (?ts ! (k div ?nc * ?nc + k mod ?nc)) x y" unfolding e using k by blast
    then have "k mod ?nc = x div ?TW \<and> k div ?nc = y div ?TH" using inside [OF rc] by blast
    then show "k = y div ?TH * ?nc + x div ?TW"
      by (metis div_mult_mod_eq)
  qed
qed

lemma even_grid_tile_at_index:
  assumes eg: "even_grid img s"
    and k: "k < iheight img div nat (tileHeight s) * (iwidth img div nat (tileWidth s))"
  defines "t \<equiv> row_major img s 0 (iheight img div nat (tileHeight s)) (iwidth img div nat (tileWidth s)) ! k"
  shows "row t = int (k div (iwidth img div nat (tileWidth s)))"
    and "col t = int (k mod (iwidth img div nat (tileWidth s)))"
    and "sub_rectangle (canvas t) img (sourceX s (col t)) (sourceY s (row t))
           (sourceX s (col t) + tileWidth s - 1) (sourceY s (row t) + tileHeight s - 1)"
proof -
  let ?nr = "iheight img div nat (tileHeight s)" and ?nc = "iwidth img div nat (tileWidth s)"
  have p: "margin s = 0" "spacing s = 0" "offsetX s = 0" "offsetY s = 0"
    using eg by (simp_all add: even_grid_def)
  have nc: "0 < ?nc" using k by (cases "?nc = 0") simp_all
  have rc: "k div ?nc < ?nr" "k mod ?nc < ?nc"
    using k nc by (simp_all add: less_mult_imp_div_less)
  have e: "k div ?nc * ?nc + k mod ?nc = k" by (rule div_mult_mod_eq)
  have t: "t = tile_at img s (k div ?nc) (k mod ?nc)"
    unfolding t_def using row_major_nth [OF rc, of img s] unfolding e .
  note tf = even_grid_tile [OF eg rc]
  show r: "row t = int (k div ?nc)" and c: "col t = int (k mod ?nc)"
    unfolding t by (rule tf(1), rule tf(2))
  have sx: "sourceX s (col t) = int (k mod ?nc) * tileWidth s"
           "sourceY s (row t) = int (k div ?nc) * tileHeight s"
    unfolding r c using p by (simp_all add: sourceX_def sourceY_def)
  show "sub_rectangle (canvas t) img (sourceX s (col t)) (sourceY s (row t))
           (sourceX s (col t) + tileWidth s - 1) (sourceY s (row t) + tileHeight s - 1)"
    unfolding sx unfolding t tf(3) by (rule tf(6))
qed

text \<open>
  C7. When the tile size divides the dimensions of the raster, with margin, spacing and
  offsets 0 and no trimming, slicing along the grid of \<open>calculateGrid\<close> returns exactly
  \<open>rows * cols\<close> tiles in row-major order; the canvas of each tile has exactly the tile
  size and is a byte-for-byte copy of its source rectangle; every pixel of the raster lies
  in the source rectangle of exactly one tile (no gap, no overlap); and placing each tile
  in the cell at \<open>(col * tileWidth, row * tileHeight)\<close> gives back the raster, byte for byte.
\<close>

theorem slice_roundtrip:
  assumes "even_grid img s"
  shows "\<exists>tiles. sliceSprite img s (calculateGrid s (metadata_of img a)) = Some (Inr tiles) \<and>
           rows (calculateGrid s (metadata_of img a)) = Fin (int (iheight img) div tileHeight s) \<and>
           cols (calculateGrid s (metadata_of img a)) = Fin (int (iwidth img) div tileWidth s) \<and>
           int (length tiles) = (int (iheight img) div tileHeight s) * (int (iwidth img) div tileWidth s) \<and>
           (\<forall>k \<in> {..<length tiles}.
              row (tiles ! k) = int (k div (iwidth img div nat (tileWidth s))) \<and>
              col (tiles ! k) = int (k mod (iwidth img div nat (tileWidth s))) \<and>
              int (iwidth (canvas (tiles ! k))) = tileWidth s \<and>
              int (iheight (canvas (tiles ! k))) = tileHeight s \<and>
              sub_rectangle (canvas (tiles ! k)) img
                (sourceX s (col (tiles ! k))) (sourceY s (row (tiles ! k)))
                (sourceX s (col (tiles ! k)) + tileWidth s - 1)
                (sourceY s (row (tiles ! k)) + tileHeight s - 1)) \<and>
           (\<forall>x \<in> {..<iwidth img}. \<forall>y \<in> {..<iheight img}.
              \<exists>!k. k < length tiles \<and> in_source_rectangle s (tiles ! k) x y) \<and>
           reassemble tiles (tileWidth s) (tileHeight s) (iwidth img) (iheight img) = img"
proof -
  let ?nr = "iheight img div nat (tileHeight s)" and ?nc = "iwidth img div nat (tileWidth s)"
  let ?ts = "row_major img s 0 ?nr ?nc"
  have p: "0 < tileWidth s" "0 < tileHeight s" using assms by (simp_all add: even_grid_def)
  have d: "int (iwidth img) div tileWidth s = int ?nc" "int (iheight img) div tileHeight s = int ?nr"
    using p by (simp_all add: zdiv_int)
  note g = even_grid_calculateGrid [OF assms, of a]
  have "sliceSprite img s (calculateGrid s (metadata_of img a)) =
        sliceLoop img s (Fin (int ?nr)) (Fin (int ?nc)) (int 0) 0 []"
    by (simp add: sliceSprite_def g)
  also have "\<dots> = Some (Inr ([] @ ?ts))"
    by (rule sliceLoop_outer) (simp_all add: even_grid_ok [OF assms])
  finally have run: "sliceSprite img s (calculateGrid s (metadata_of img a)) = Some (Inr ?ts)" by simp
  have each: "\<forall>k \<in> {..<length ?ts}.
              row (?ts ! k) = int (k div ?nc) \<and> col (?ts ! k) = int (k mod ?nc) \<and>
              int (iwidth (canvas (?ts ! k))) = tileWidth s \<and>
              int (iheight (canvas (?ts ! k))) = tileHeight s \<and>
              sub_rectangle (canvas (?ts ! k)) img
                (sourceX s (col (?ts ! k))) (sourceY s (row (?ts ! k)))
                (sourceX s (col (?ts ! k)) + tileWidth s - 1)
                (sourceY s (row (?ts ! k)) + tileHeight s - 1)"
  proof
    fix k assume "k \<in> {..<length ?ts}"
    then have k: "k < ?nr * ?nc" by (simp add: length_row_major)
    note f = even_grid_tile_at_index [OF assms k]
    have "int (iwidth (canvas (?ts ! k))) = tileWidth s" "int (iheight (canvas (?ts ! k))) = tileHeight s"
      using f(3) unfolding sub_rectangle_def by simp_all
    then show "row (?ts ! k) = int (k div ?nc) \<and> col (?ts ! k) = int (k mod ?nc) \<and>
              int (iwidth (canvas (?ts ! k))) = tileWidth s \<and>
              int (iheight (canvas (?ts ! k))) = tileHeight s \<and>
              sub_rectangle (canvas (?ts ! k)) img
                (sourceX s (col (?ts ! k))) (sourceY s (row (?ts ! k)))
                (sourceX s (col (?ts ! k)) + tileWidth s - 1)
                (sourceY s (row (?ts ! k)) + tileHeight s - 1)"
      using f by blast
  qed
  have cover: "\<forall>x \<in> {..<iwidth img}. \<forall>y \<in> {..<iheight img}.
              \<exists>!k. k < length ?ts \<and> in_source_rectangle s (?ts ! k) x y"
    using even_grid_unique_tile [OF assms] by simp
  have len: "int (length ?ts) = (int (iheight img) div tileHeight s) * (int (iwidth img) div tileWidth s)"
    by (simp add: d length_row_major)
  have gr: "rows (calculateGrid s (metadata_of img a)) = Fin (int (iheight img) div tileHeight s)"
           "cols (calculateGrid s (metadata_of img a)) = Fin (int (iwidth img) div tileWidth s)"
    by (simp_all add: g d)
  show ?thesis
    using run gr len each cover even_grid_reassemble [OF assms]
    by (intro exI [of _ ?ts]) (intro conjI)
qed

theorem slice_roundtrip_witness:
  "even_grid example_tile example_settings \<and>
   (\<exists>tiles. sliceSprite example_tile example_settings
                (calculateGrid example_settings (metadata_of example_tile True)) = Some (Inr tiles) \<and>
             length tiles = 6 \<and>
             row (tiles ! 1) = 0 \<and> col (tiles ! 1) = 1 \<and>
             sub_rectangle (canvas (tiles ! 1)) example_tile 1 0 1 0 \<and>
             reassemble tiles 1 1 3 2 = example_tile)"
proof -
  have e: "even_grid example_tile example_settings"
    by (simp add: even_grid_def example_tile_def example_settings_def wf_image_def max_dimension_def)
  have v: "tileWidth example_settings = 1" "tileHeight example_settings = 1"
    "iwidth example_tile = 3" "iheight example_tile = 2"
    by (simp_all add: example_tile_def example_settings_def)
  have sx: "sourceX example_settings 1 = 1" "sourceY example_settings 0 = 0"
    by (simp_all add: sourceX_def sourceY_def example_settings_def)
  let ?s = example_settings and ?i = example_tile
  obtain tiles where t:
    "sliceSprite ?i ?s (calculateGrid ?s (metadata_of ?i True)) = Some (Inr tiles)"
    "int (length tiles) = (int (iheight ?i) div tileHeight ?s) * (int (iwidth ?i) div tileWidth ?s)"
    "\<forall>k \<in> {..<length tiles}.
        row (tiles ! k) = int (k div (iwidth ?i div nat (tileWidth ?s))) \<and>
        col (tiles ! k) = int (k mod (iwidth ?i div nat (tileWidth ?s))) \<and>
        int (iwidth (canvas (tiles ! k))) = tileWidth ?s \<and>
        int (iheight (canvas (tiles ! k))) = tileHeight ?s \<and>
        sub_rectangle (canvas (tiles ! k)) ?i
          (sourceX ?s (col (tiles ! k))) (sourceY ?s (row (tiles ! k)))
          (sourceX ?s (col (tiles ! k)) + tileWidth ?s - 1)
          (sourceY ?s (row (tiles ! k)) + tileHeight ?s - 1)"
    "reassemble tiles (tileWidth ?s) (tileHeight ?s) (iwidth ?i) (iheight ?i) = ?i"
    using slice_roundtrip [OF e, of True] by blast
  have l: "length tiles = 6" using t(2) unfolding v by simp
  then have k: "(1::nat) \<in> {..<length tiles}" by simp
  note b = bspec [OF t(3) k]
  have rc: "row (tiles ! 1) = 0" "col (tiles ! 1) = 1" using b unfolding v by simp_all
  have sr: "sub_rectangle (canvas (tiles ! 1)) example_tile 1 0 1 0"
    using b unfolding rc sx v by simp
  have re: "reassemble tiles 1 1 3 2 = example_tile" using t(4) unfolding v .
  show ?thesis using e t(1) l rc sr re by blast
qed


section \<open>The index of a tile\<close>

lemma extractTile_fields:
  assumes "extractTile img s r c = Inr t"
  shows "row t = r" "col t = c" "index t = tileIndex img s r c"
  using assms
  by (auto simp: extractTile_def Let_def split: if_splits sum.splits prod.splits)

lemma validateSettings_feasible: "validateSettings s m = [] \<longleftrightarrow> feasible s m"
  unfolding validateSettings_def Let_def feasible_def
  by (simp add: push_if_Nil) auto

lemma tileIndex_validated:
  assumes "validateSettings s m = []"
  shows "tileIndex img s r c =
         Fin (r * ((int (iwidth img) - 2 * margin s - offsetX s + spacing s) div (tileWidth s + spacing s)) + c)"
proof -
  have "0 < tileWidth s" "0 \<le> spacing s"
    using assms by (simp_all add: validateSettings_feasible feasible_def)
  then show ?thesis by (simp add: tileIndex_def floor_div_def mult.commute)
qed

text \<open>The guard of the index expression takes 1 for the column count when the tile width is
  not positive; \<open>validateSettings\<close> rejects such settings.\<close>

lemma tileIndex_guard: "tileWidth s \<le> 0 \<Longrightarrow> tileIndex img s r c = Fin (r + c)"
  by (simp add: tileIndex_def)

lemma sliceLoop_index:
  assumes run: "sliceLoop img s nrows ncols rw cl tiles = Some y"
  shows "indexed img s tiles \<longrightarrow> (\<forall>ts. y = Inr ts \<longrightarrow> indexed img s ts)"
proof (rule sliceLoop.raw_induct
    [where P = "\<lambda>img s nrows ncols rw cl tiles y.
                  indexed img s tiles \<longrightarrow> (\<forall>ts. y = Inr ts \<longrightarrow> indexed img s ts)", OF _ run])
  fix f :: "ImageData \<Rightarrow> TileSettings \<Rightarrow> jsnum \<Rightarrow> jsnum \<Rightarrow> int \<Rightarrow> int \<Rightarrow> TileData list
              \<Rightarrow> (error + TileData list) option"
  fix img s nrows ncols rw cl tiles y
  assume IH: "\<And>img s nrows ncols rw cl tiles y. f img s nrows ncols rw cl tiles = Some y \<Longrightarrow>
                indexed img s tiles \<longrightarrow> (\<forall>ts. y = Inr ts \<longrightarrow> indexed img s ts)"
  assume body: "(if jless (Fin rw) nrows then
        (if jless (Fin cl) ncols then
           (case extractTile img s rw cl of
              Inl e \<Rightarrow> Some (Inl e)
            | Inr tile \<Rightarrow> f img s nrows ncols rw (cl + 1) (tiles @ [tile]))
         else f img s nrows ncols (rw + 1) 0 tiles)
      else Some (Inr tiles)) = Some y"
  show "indexed img s tiles \<longrightarrow> (\<forall>ts. y = Inr ts \<longrightarrow> indexed img s ts)"
  proof (cases "jless (Fin rw) nrows")
    case False
    then have "y = Inr tiles" using body by simp
    then show ?thesis by simp
  next
    case r: True
    show ?thesis
    proof (cases "jless (Fin cl) ncols")
      case False
      then have "f img s nrows ncols (rw + 1) 0 tiles = Some y" using body r by simp
      then show ?thesis by (rule IH)
    next
      case c: True
      show ?thesis
      proof (cases "extractTile img s rw cl")
        case (Inl e)
        then have "y = Inl e" using body r c by simp
        then show ?thesis by simp
      next
        case (Inr tile)
        have "f img s nrows ncols rw (cl + 1) (tiles @ [tile]) = Some y"
          using body r c Inr by simp
        then have "indexed img s (tiles @ [tile]) \<longrightarrow> (\<forall>ts. y = Inr ts \<longrightarrow> indexed img s ts)"
          by (rule IH)
        moreover have "index tile = tileIndex img s (row tile) (col tile)"
          using extractTile_fields [OF Inr] by simp
        ultimately show ?thesis by (simp add: indexed_def)
      qed
    qed
  qed
qed

lemma sliceSprite_index:
  assumes "sliceSprite img s g = Some (Inr tiles)" "t \<in> set tiles"
  shows "index t = tileIndex img s (row t) (col t)"
proof -
  have "sliceLoop img s (rows g) (cols g) 0 0 [] = Some (Inr tiles)"
    using assms(1) by (simp only: sliceSprite_def)
  from sliceLoop_index [OF this] have "indexed img s tiles" by (simp add: indexed_def)
  then show ?thesis using assms(2) by (simp add: indexed_def)
qed


lemma validated_ok:
  assumes v: "validateSettings s (metadata_of img a) = []" and wf: "wf_image img"
  shows "\<exists>t. extractTile img s r c = Inr t"
proof -
  have f: "feasible s (metadata_of img a)" using v by (simp add: validateSettings_feasible)
  have p: "0 < tileWidth s" "0 < tileHeight s" "tileWidth s \<le> int (iwidth img)" "tileHeight s \<le> int (iheight img)"
    using f by (simp_all add: feasible_def metadata_of_def)
  have b: "tileWidth s \<le> 2147483647" "tileHeight s \<le> 2147483647"
    using p wf by (simp_all add: wf_image_def max_dimension_def)
  have "0 < iwidth (tileCanvas img s r c)" "0 < iheight (tileCanvas img s r c)"
    using p b by (simp_all add: tileCanvas_dims)
  from extractTile_result [OF this] show ?thesis by blast
qed

lemma sliceSprite_finite:
  assumes ok: "\<And>r c. \<exists>t. extractTile img s r c = Inr t"
    and g: "rows g = Fin (int nr)" "cols g = Fin (int nc)"
  shows "sliceSprite img s g = Some (Inr (row_major img s 0 nr nc))"
proof -
  have "sliceLoop img s (Fin (int nr)) (Fin (int nc)) (int 0) 0 [] =
        Some (Inr ([] @ row_major img s 0 nr nc))"
    by (rule sliceLoop_outer) (simp_all add: ok)
  then show ?thesis by (simp add: sliceSprite_def g)
qed

lemma validated_grid:
  assumes f: "feasible s m"
  shows "\<exists>nr nc. 0 < nr \<and> 0 < nc \<and> rows (calculateGrid s m) = Fin (int nr) \<and>
                 cols (calculateGrid s m) = Fin (int nc)"
proof -
  let ?a = "width m - margin s * 2 - offsetX s + spacing s" and ?b = "tileWidth s + spacing s"
  let ?c = "height m - margin s * 2 - offsetY s + spacing s" and ?d = "tileHeight s + spacing s"
  have p: "0 < ?b" "?b \<le> ?a" "0 < ?d" "?d \<le> ?c" using f by (simp_all add: feasible_def)
  have "0 < ?a div ?b" by (rule iffD2 [OF pos_imp_zdiv_pos_iff [OF p(1)] p(2)])
  moreover have "0 < ?c div ?d" by (rule iffD2 [OF pos_imp_zdiv_pos_iff [OF p(3)] p(4)])
  moreover have "rows (calculateGrid s m) = Fin (max 0 (?c div ?d))"
    "cols (calculateGrid s m) = Fin (max 0 (?a div ?b))"
    using p by (simp_all add: calculateGrid_def Let_def floor_div_def)
  ultimately show ?thesis
    by (intro exI [of _ "nat (?c div ?d)"] exI [of _ "nat (?a div ?b)"]) simp
qed

lemma validated_export:
  assumes v: "validateSettings s (metadata_of img a) = []" and wf: "wf_image img"
  shows "\<exists>tiles. exportTiles img s (metadata_of img a) = Inr (Some (Inr tiles)) \<and> tiles \<noteq> []"
proof -
  have f: "feasible s (metadata_of img a)" using v by (simp add: validateSettings_feasible)
  obtain nr nc where n: "0 < nr" "0 < nc" "rows (calculateGrid s (metadata_of img a)) = Fin (int nr)"
    "cols (calculateGrid s (metadata_of img a)) = Fin (int nc)"
    using validated_grid [OF f] by blast
  have "sliceSprite img s (calculateGrid s (metadata_of img a)) = Some (Inr (row_major img s 0 nr nc))"
    by (rule sliceSprite_finite [OF validated_ok [OF v wf] n(3,4)])
  moreover have "length (row_major img s 0 nr nc) \<noteq> 0" using n(1,2) by (simp add: length_row_major)
  ultimately show ?thesis using v by (auto simp: exportTiles_def Let_def)
qed

lemma exportTiles_sliced:
  assumes "exportTiles img s m = Inr r"
  shows "validateSettings s m = []" "r = sliceSprite img s (calculateGrid s m)"
  using assms by (simp_all add: exportTiles_def Let_def split: if_splits)

lemma scenario_export:
  assumes d: "iwidth img = 64" "iheight img = 64"
    and s: "tileWidth s = 32" "tileHeight s = 32" "margin s = 0" "spacing s = 0" "offsetX s = 0" "offsetY s = 0"
  shows "calculateGrid s (metadata_of img a) = \<lparr> rows = Fin 2, cols = Fin 2, totalTiles = Fin 4 \<rparr>"
    and "\<exists>tiles. exportTiles img s (metadata_of img a) = Inr (Some (Inr tiles)) \<and>
            map (\<lambda>t. (row t, col t, index t)) tiles =
              [(0, 0, Fin 0), (0, 1, Fin 1), (1, 0, Fin 2), (1, 1, Fin 3)]"
proof -
  show g: "calculateGrid s (metadata_of img a) = \<lparr> rows = Fin 2, cols = Fin 2, totalTiles = Fin 4 \<rparr>"
    using d s by (simp add: calculateGrid_def metadata_of_def floor_div_def)
  have v: "validateSettings s (metadata_of img a) = []"
    using d s by (simp add: validateSettings_feasible feasible_def metadata_of_def)
  have ok: "\<exists>t. extractTile img s r c = Inr t" for r c
  proof -
    have "0 < iwidth (tileCanvas img s r c)" "0 < iheight (tileCanvas img s r c)"
      using s by (simp_all add: tileCanvas_dims)
    from extractTile_result [OF this] show ?thesis by blast
  qed
  have run: "sliceSprite img s (calculateGrid s (metadata_of img a)) = Some (Inr (row_major img s 0 2 2))"
    by (rule sliceSprite_finite [OF ok]) (simp_all add: g)
  have l: "row_major img s 0 2 2 =
      [tile_at img s 0 0, tile_at img s 0 1, tile_at img s 1 0, tile_at img s 1 1]"
    by (simp add: row_major_def upt_rec numeral_2_eq_2)
  have t: "(row (tile_at img s r c), col (tile_at img s r c), index (tile_at img s r c)) =
           (int r, int c, Fin (int r * 2 + int c))" for r c
  proof -
    obtain t where t: "extractTile img s (int r) (int c) = Inr t" using ok by blast
    have "tileIndex img s (int r) (int c) = Fin (int r * 2 + int c)"
      using d s by (simp add: tileIndex_validated [OF v])
    then show ?thesis using extractTile_fields [OF t] t by (simp add: tile_at_def)
  qed
  have "map (\<lambda>t. (row t, col t, index t)) (row_major img s 0 2 2) =
              [(0, 0, Fin 0), (0, 1, Fin 1), (1, 0, Fin 2), (1, 1, Fin 3)]"
    unfolding l using t [of 0 0] t [of 0 1] t [of 1 0] t [of 1 1] by simp
  then show "\<exists>tiles. exportTiles img s (metadata_of img a) = Inr (Some (Inr tiles)) \<and>
            map (\<lambda>t. (row t, col t, index t)) tiles =
              [(0, 0, Fin 0), (0, 1, Fin 1), (1, 0, Fin 2), (1, 1, Fin 3)]"
    using run v by (simp add: exportTiles_def Let_def)
qed

text \<open>
  C4. Every tile that \<open>extractTile\<close> returns carries its row and its column, and the index
  \<open>row * cols + col\<close>, where \<open>cols\<close> is recomputed from the width of the image as
  \<open>floor((image.width - 2 * margin - offsetX + spacing) / (tileWidth + spacing))\<close>: for every
  tile of an export, and, with settings that \<open>validateSettings\<close> accepts, for every tile of
  \<open>sliceSprite\<close> whatever layout the caller passes, and for every single extraction (which
  returns a tile on an image a browser can hold). A 64 by 64 raster cut into 32 by 32
  tiles, with margin, spacing and offsets 0, has the layout 2 by 2 with 4 tiles, and its
  export returns the tiles (0,0), (0,1), (1,0), (1,1) with the indices 0, 1, 2, 3.
\<close>

theorem extractTile_index:
  "(\<forall>tiles. exportTiles img s m = Inr (Some (Inr tiles)) \<longrightarrow>
      (\<forall>t \<in> set tiles.
         index t = Fin (row t * ((int (iwidth img) - 2 * margin s - offsetX s + spacing s)
                                   div (tileWidth s + spacing s)) + col t))) \<and>
   (validateSettings s m = [] \<longrightarrow>
      (\<forall>g tiles. sliceSprite img s g = Some (Inr tiles) \<longrightarrow>
         (\<forall>t \<in> set tiles.
            index t = Fin (row t * ((int (iwidth img) - 2 * margin s - offsetX s + spacing s)
                                      div (tileWidth s + spacing s)) + col t))) \<and>
      (\<forall>t. extractTile img s r c = Inr t \<longrightarrow>
         row t = r \<and> col t = c \<and>
         index t = Fin (r * ((int (iwidth img) - 2 * margin s - offsetX s + spacing s)
                               div (tileWidth s + spacing s)) + c))) \<and>
   (validateSettings s (metadata_of img a) = [] \<and> wf_image img \<longrightarrow>
      (\<exists>t. extractTile img s r c = Inr t) \<and>
      (\<exists>tiles. exportTiles img s (metadata_of img a) = Inr (Some (Inr tiles)) \<and> tiles \<noteq> [])) \<and>
   (iwidth img = 64 \<and> iheight img = 64 \<and> tileWidth s = 32 \<and> tileHeight s = 32 \<and>
    margin s = 0 \<and> spacing s = 0 \<and> offsetX s = 0 \<and> offsetY s = 0 \<longrightarrow>
      calculateGrid s (metadata_of img a) = \<lparr> rows = Fin 2, cols = Fin 2, totalTiles = Fin 4 \<rparr> \<and>
      (\<exists>tiles. exportTiles img s (metadata_of img a) = Inr (Some (Inr tiles)) \<and>
         map (\<lambda>t. (row t, col t, index t)) tiles =
           [(0, 0, Fin 0), (0, 1, Fin 1), (1, 0, Fin 2), (1, 1, Fin 3)]))"
proof -
  let ?cols = "(int (iwidth img) - 2 * margin s - offsetX s + spacing s) div (tileWidth s + spacing s)"
  have sl: "\<forall>g tiles. sliceSprite img s g = Some (Inr tiles) \<longrightarrow>
         (\<forall>t \<in> set tiles. index t = Fin (row t * ?cols + col t))"
    if v: "validateSettings s m = []" for m
  proof (intro allI impI ballI)
    fix g tiles t assume "sliceSprite img s g = Some (Inr tiles)" "t \<in> set tiles"
    then have "index t = tileIndex img s (row t) (col t)" by (rule sliceSprite_index)
    then show "index t = Fin (row t * ?cols + col t)" by (simp only: tileIndex_validated [OF v])
  qed
  have ex: "\<forall>tiles. exportTiles img s m = Inr (Some (Inr tiles)) \<longrightarrow>
      (\<forall>t \<in> set tiles. index t = Fin (row t * ?cols + col t))"
  proof (intro allI impI)
    fix tiles assume e: "exportTiles img s m = Inr (Some (Inr tiles))"
    note x = exportTiles_sliced [OF e]
    have "sliceSprite img s (calculateGrid s m) = Some (Inr tiles)" using x(2) by simp
    then show "\<forall>t \<in> set tiles. index t = Fin (row t * ?cols + col t)"
      using sl [OF x(1)] by blast
  qed
  have one: "\<forall>t. extractTile img s r c = Inr t \<longrightarrow> row t = r \<and> col t = c \<and> index t = Fin (r * ?cols + c)"
    if v: "validateSettings s m = []"
    using extractTile_fields [of img s r c] tileIndex_validated [OF v, of img r c] by simp
  have tot: "(\<exists>t. extractTile img s r c = Inr t) \<and>
      (\<exists>tiles. exportTiles img s (metadata_of img a) = Inr (Some (Inr tiles)) \<and> tiles \<noteq> [])"
    if "validateSettings s (metadata_of img a) = [] \<and> wf_image img"
    using that validated_ok [of s img a r c] validated_export [of s img a] by blast
  have sc: "calculateGrid s (metadata_of img a) = \<lparr> rows = Fin 2, cols = Fin 2, totalTiles = Fin 4 \<rparr> \<and>
      (\<exists>tiles. exportTiles img s (metadata_of img a) = Inr (Some (Inr tiles)) \<and>
         map (\<lambda>t. (row t, col t, index t)) tiles =
           [(0, 0, Fin 0), (0, 1, Fin 1), (1, 0, Fin 2), (1, 1, Fin 3)])"
    if "iwidth img = 64 \<and> iheight img = 64 \<and> tileWidth s = 32 \<and> tileHeight s = 32 \<and>
    margin s = 0 \<and> spacing s = 0 \<and> offsetX s = 0 \<and> offsetY s = 0"
    using that scenario_export [of img s a] by blast
  show ?thesis
    apply (intro conjI impI)
         apply (rule ex)
        apply (erule sl)
       apply (erule one)
      apply (drule tot, erule conjunct1)
     apply (drule tot, erule conjunct2)
    apply (drule sc, erule conjunct1)
    apply (drule sc, erule conjunct2)
    done
qed

theorem extractTile_index_witness:
  "validateSettings settings32 (metadata_of image64 True) = [] \<and> wf_image image64 \<and>
   iwidth image64 = 64 \<and> iheight image64 = 64 \<and>
   tileWidth settings32 = 32 \<and> tileHeight settings32 = 32 \<and>
   margin settings32 = 0 \<and> spacing settings32 = 0 \<and> offsetX settings32 = 0 \<and> offsetY settings32 = 0 \<and>
   (\<exists>t. extractTile image64 settings32 1 0 = Inr t \<and> row t = 1 \<and> col t = 0 \<and> index t = Fin 2) \<and>
   (\<exists>tiles. exportTiles image64 settings32 (metadata_of image64 True) = Inr (Some (Inr tiles)) \<and>
      map (\<lambda>t. (row t, col t, index t)) tiles =
        [(0, 0, Fin 0), (0, 1, Fin 1), (1, 0, Fin 2), (1, 1, Fin 3)] \<and>
      (\<forall>t \<in> set tiles. index t = Fin (row t * 2 + col t)))"
proof -
  let ?m = "metadata_of image64 True"
  have p: "iwidth image64 = 64" "iheight image64 = 64" "tileWidth settings32 = 32"
    "tileHeight settings32 = 32" "margin settings32 = 0" "spacing settings32 = 0"
    "offsetX settings32 = 0" "offsetY settings32 = 0"
    by (simp_all add: image64_def settings32_def)
  have v: "validateSettings settings32 ?m = []"
    unfolding validateSettings_feasible feasible_def metadata_of_def using p by simp
  have wf: "wf_image image64" by (simp add: wf_image_def image64_def max_dimension_def)
  note th = extractTile_index [of image64 settings32 ?m 1 0 True]
  have c: "(int (iwidth image64) - 2 * margin settings32 - offsetX settings32 + spacing settings32)
             div (tileWidth settings32 + spacing settings32) = 2"
    unfolding p by simp
  have pc: "iwidth image64 = 64 \<and> iheight image64 = 64 \<and> tileWidth settings32 = 32 \<and>
    tileHeight settings32 = 32 \<and> margin settings32 = 0 \<and> spacing settings32 = 0 \<and>
    offsetX settings32 = 0 \<and> offsetY settings32 = 0"
    using p by simp
  note th1 = th [THEN conjunct1]
    and th2 = th [THEN conjunct2, THEN conjunct1, rule_format, OF v]
    and th3 = th [THEN conjunct2, THEN conjunct2, THEN conjunct1, rule_format, OF conjI [OF v wf]]
    and th4 = th [THEN conjunct2, THEN conjunct2, THEN conjunct2]
  obtain t where t: "extractTile image64 settings32 1 0 = Inr t" using th3 by blast
  have tf: "row t = 1 \<and> col t = 0 \<and> index t = Fin 2"
    using th2 [THEN conjunct2, rule_format, OF t] unfolding c by simp
  obtain tiles where ts: "exportTiles image64 settings32 ?m = Inr (Some (Inr tiles))"
      "map (\<lambda>t. (row t, col t, index t)) tiles =
        [(0, 0, Fin 0), (0, 1, Fin 1), (1, 0, Fin 2), (1, 1, Fin 3)]"
    using mp [OF th4 pc, THEN conjunct2] by (elim exE conjE)
  have ix: "\<forall>t \<in> set tiles. index t = Fin (row t * 2 + col t)"
    using th1 [rule_format, OF ts(1)] unfolding c by blast
  have e1: "\<exists>t. extractTile image64 settings32 1 0 = Inr t \<and> row t = 1 \<and> col t = 0 \<and> index t = Fin 2"
    using t tf by simp
  have e2: "\<exists>tiles. exportTiles image64 settings32 ?m = Inr (Some (Inr tiles)) \<and>
      map (\<lambda>t. (row t, col t, index t)) tiles =
        [(0, 0, Fin 0), (0, 1, Fin 1), (1, 0, Fin 2), (1, 1, Fin 3)] \<and>
      (\<forall>t \<in> set tiles. index t = Fin (row t * 2 + col t))"
    using ts ix by (intro exI [of _ tiles] conjI)
  from v wf pc e1 e2 show ?thesis by (simp only: simp_thms)
qed


section \<open>Auto-detection\<close>

lemma count_vertical_le:
  "count_vertical d w h tw ncols cl acc \<le> acc + (ncols - cl)"
proof (induction d w h tw ncols cl acc rule: count_vertical.induct)
  case (1 d w h tw ncols cl acc)
  show ?case
  proof (cases "cl < ncols")
    case lt: True
    show ?thesis
    proof (cases "cl * tw < w")
      case True
      let ?acc = "if vertical_scan d w h (cl * tw) 0 then acc + 1 else acc"
      have "count_vertical d w h tw ncols cl acc = count_vertical d w h tw ncols (cl + 1) ?acc"
        using lt True by (subst count_vertical.simps) (simp add: Let_def)
      also have "\<dots> \<le> ?acc + (ncols - (cl + 1))"
        using lt True by (intro "1.IH"(1)) simp_all
      also have "\<dots> \<le> acc + (ncols - cl)"
      proof -
        have "?acc \<le> acc + 1" by simp
        then show ?thesis using lt by linarith
      qed
      finally show ?thesis .
    next
      case False
      have "count_vertical d w h tw ncols cl acc = count_vertical d w h tw ncols (cl + 1) acc"
        using lt False by (subst count_vertical.simps) (simp add: Let_def)
      also have "\<dots> \<le> acc + (ncols - (cl + 1))"
        using lt False by (intro "1.IH"(2)) simp_all
      also have "\<dots> \<le> acc + (ncols - cl)" by simp
      finally show ?thesis .
    qed
  next
    case False
    then show ?thesis by (subst count_vertical.simps) simp
  qed
qed

lemma tryDetectGrid_few_columns:
  assumes "iwidth imageData div tw < 4"
  shows "tryDetectGrid imageData tw th = None"
proof -
  let ?n = "iwidth imageData div tw"
  have "count_vertical (data imageData) (iwidth imageData) (iheight imageData) tw ?n 1 0 \<le> 0 + (?n - 1)"
    by (rule count_vertical_le)
  then have "\<not> 7 * ?n \<le> 10 * count_vertical (data imageData) (iwidth imageData) (iheight imageData) tw ?n 1 0"
    if "2 \<le> ?n" using that assms by linarith
  then show ?thesis
    by (auto simp: tryDetectGrid_def Let_def)
qed

text \<open>
  C2 (the code departs from the claim). On a fully transparent 32 by 32 raster the
  candidate 16 has two columns and two rows, and its only internal vertical line and its
  only internal horizontal line are consistent: all of them, so at least 70 percent. The
  code compares the number of consistent lines with 0.7 times the number of columns, not
  of lines: \<open>1 >= 1.4\<close> fails, the candidate is rejected, the larger ones have fewer than two
  columns, and the result is \<open>null\<close>.
\<close>

theorem autoDetect_rejects_two_by_two:
  "autoDetectTileSize image32 = Inr None"
proof -
  have d: "iwidth image32 = 32" "iheight image32 = 32"
    by (simp_all add: image32_def)
  have "\<lparr> iwidth = iwidth image32, iheight = iheight image32, data = data image32 \<rparr> = image32"
    by simp
  then have i: "\<lparr> iwidth = 32, iheight = 32, data = data image32 \<rparr> = image32"
    unfolding d .
  have "tryDetectGrid image32 sz sz = None" if "sz \<in> set commonSizes" for sz
    using that by (intro tryDetectGrid_few_columns) (auto simp: commonSizes_def d)
  then have "first_detected image32 commonSizes = None"
    by (simp add: commonSizes_def)
  then show ?thesis
    by (simp add: autoDetectTileSize_def getImageData_def d i)
qed

end
